theory Spec2Isabelle
  imports Main "HOL-Library.Word"
begin

unbundle bit_operations_syntax

section \<open>The host program of kernel.cu\<close>

text \<open>
  The file \<^verbatim>\<open>kernel.cu\<close> is the host side of the miner: \<^verbatim>\<open>test_mining\<close> sizes the batch,
  allocates the device buffers and launches the kernels batch after batch; \<^verbatim>\<open>tests\<close> runs
  each kernel once and compares what it wrote with a sequential reference. The kernels
  themselves, the reference primitives and the size constants live in headers that are
  not part of the file. The model below follows the host code statement by statement and
  records every call into the CUDA runtime as an event of a trace.
\<close>

subsection \<open>Buffers, kernels and events\<close>

text \<open>
  The \<^verbatim>\<open>GPUPtr\<close> objects of \<^verbatim>\<open>test_mining\<close> and \<^verbatim>\<open>tests\<close>, by variable; \<^verbatim>\<open>hashes_gpu\<close> and
  \<^verbatim>\<open>hash_gpu\<close> share a name, as do the other buffers that play the same part in both.
\<close>

datatype buffer =
  Tmp | Dataset | Scratchpads | Hashes | Programs | Registers | BlockTemplate | NonceOut | States

text \<open>
  The kernels launched by \<^verbatim>\<open>test_mining\<close>, with the template arguments that differ
  between launches: \<^verbatim>\<open>fillAes1Rx4<_, true>\<close> or \<^verbatim>\<open><_, false>\<close>, and the digest width of
  \<^verbatim>\<open>blake2b_hash_registers\<close>.
\<close>

datatype kernel =
    Blake2b_initial_hash
  | FillAes1Rx4 bool
  | InitGroupA_registers
  | HashAes1Rx4
  | Blake2b_hash_registers nat

datatype arg = Buf buffer | Nonce "32 word" | Batch "64 word"

datatype event =
    Malloc buffer "64 word"
  | Free buffer
  | MemGetInfo
  | Memset buffer
  | MemcpyToDevice buffer
  | MemcpyToHost buffer
  | Launch kernel "arg list"
  | GetLastError
  | DeviceSynchronize
  | DeviceReset
  | Stderr string
  | Stdout string

subsection \<open>Constants of the missing header\<close>

text \<open>
  \<^verbatim>\<open>DATASET_SIZE\<close>, \<^verbatim>\<open>SCRATCHPAD_SIZE\<close>, \<^verbatim>\<open>HASH_SIZE\<close>, \<^verbatim>\<open>PROGRAM_SIZE\<close>, \<^verbatim>\<open>REGISTERS_SIZE\<close> and
  \<^verbatim>\<open>PROGRAM_COUNT\<close> are declared in \<^verbatim>\<open>randomx_cuda.hpp\<close>, which is not at hand. They
  are parameters of the model. The byte sizes take part in \<^verbatim>\<open>size_t\<close> arithmetic and are
  64-bit words; \<^verbatim>\<open>PROGRAM_COUNT\<close> only bounds a loop counter.
\<close>

record config =
  DATASET_SIZE :: "64 word"
  SCRATCHPAD_SIZE :: "64 word"
  HASH_SIZE :: "64 word"
  PROGRAM_SIZE :: "64 word"
  REGISTERS_SIZE :: "64 word"
  PROGRAM_COUNT :: nat

subsection \<open>The CUDA runtime\<close>

text \<open>
  The device is an oracle: \<open>ok dev n\<close> tells whether the \<open>n\<close>-th call into the runtime
  (an allocation, a release, a memory query, a copy, a kernel launch, a synchronisation)
  succeeds, \<open>reported_free dev n\<close> is the free memory a query reports when it is
  that call, and \<open>readback dev n k\<close> is byte \<open>k\<close> of what a copy from the device delivers
  when it is that call. A failed call leaves its error behind as the runtime's last error;
  \<^verbatim>\<open>cudaGetLastError\<close> returns the last error and resets it. Kernel launches return
  nothing, so a launch failure is seen only through \<^verbatim>\<open>cudaGetLastError\<close>.
\<close>

record device =
  ok :: "nat \<Rightarrow> bool"
  reported_free :: "nat \<Rightarrow> 64 word"
  readback :: "nat \<Rightarrow> nat \<Rightarrow> 8 word"

text \<open>
  The host state: the number of runtime calls made, the pending last error, the live
  \<^verbatim>\<open>GPUPtr\<close> objects (latest first), the local variables \<^verbatim>\<open>free_mem\<close>, \<^verbatim>\<open>batch_size\<close> and
  \<^verbatim>\<open>nonce\<close>, and the trace of events so far. The progress output (\<^verbatim>\<open>printf\<close>, the clock and
  the counter \<^verbatim>\<open>k\<close> that paces it) does not touch the device and is left out.
\<close>

record state =
  calls :: nat
  last_error :: bool
  live :: "buffer list"
  free_mem :: "64 word"
  batch_size :: "64 word"
  nonce :: "32 word"
  trace :: "event list"

definition initial_state :: state where
  "initial_state =
     \<lparr>calls = 0, last_error = False, live = [], free_mem = 0, batch_size = 0, nonce = 0,
      trace = []\<rparr>"

definition runtime_call :: "device \<Rightarrow> event \<Rightarrow> state \<Rightarrow> bool \<times> state" where
  "runtime_call dev e st =
     (let r = ok dev (calls st)
      in (r, st\<lparr>calls := Suc (calls st), last_error := (last_error st \<or> \<not> r),
                 trace := trace st @ [e]\<rparr>))"

definition cudaGetLastError :: "state \<Rightarrow> bool \<times> state" where
  "cudaGetLastError st =
     (\<not> last_error st, st\<lparr>last_error := False, trace := trace st @ [GetLastError]\<rparr>)"

definition fprintf_stderr :: "string \<Rightarrow> state \<Rightarrow> state" where
  "fprintf_stderr m st = st\<lparr>trace := trace st @ [Stderr m]\<rparr>"

text \<open>
  \<^verbatim>\<open>GPUPtr\<close>'s constructor calls \<^verbatim>\<open>cudaMalloc\<close> and keeps a null pointer on failure; the
  destructor frees a pointer that is not null. The boolean is \<^verbatim>\<open>operator void*\<close> read as
  a condition.
\<close>

definition GPUPtr :: "device \<Rightarrow> buffer \<Rightarrow> 64 word \<Rightarrow> state \<Rightarrow> bool \<times> state" where
  "GPUPtr dev b n st =
     (case runtime_call dev (Malloc b n) st of
        (r, st') \<Rightarrow> (r, if r then st'\<lparr>live := b # live st'\<rparr> else st'))"

definition destroy :: "device \<Rightarrow> buffer \<Rightarrow> state \<Rightarrow> state" where
  "destroy dev b st =
     (if b \<in> set (live st)
      then (snd (runtime_call dev (Free b) st))\<lparr>live := removeAll b (live st)\<rparr>
      else st)"

text \<open>Leaving \<^verbatim>\<open>test_mining\<close> runs the destructors of the live objects, latest first.\<close>

definition release :: "device \<Rightarrow> state \<Rightarrow> state" where
  "release dev st = fold (destroy dev) (live st) st"

subsection \<open>Statements and early return\<close>

text \<open>
  A statement maps the state to \<open>Inr\<close> of the next state, or to \<open>Inl\<close> of the state in
  which the function executes \<^verbatim>\<open>return false\<close>. A block is a list of statements.
\<close>

type_synonym stmt = "state \<Rightarrow> state + state"

fun run_steps :: "('s \<Rightarrow> 's + 's) list \<Rightarrow> 's \<Rightarrow> 's + 's" where
  "run_steps [] st = Inr st"
| "run_steps (f # fs) st = (case f st of Inl a \<Rightarrow> Inl a | Inr s \<Rightarrow> run_steps fs s)"

definition fail :: "string \<Rightarrow> state \<Rightarrow> state + state" where
  "fail m st = Inl (fprintf_stderr m st)"

text \<open>Lines 106 to 115: the memory query inside the scope of a 256-byte allocation.\<close>

definition query_memory :: "device \<Rightarrow> stmt" where
  "query_memory dev st =
     (case GPUPtr dev Tmp 256 st of
        (t, st1) \<Rightarrow>
          (case runtime_call dev MemGetInfo st1 of
             (r, st2) \<Rightarrow>
               if r then Inr (destroy dev Tmp (st2\<lparr>free_mem := reported_free dev (calls st1)\<rparr>))
               else Inl (destroy dev Tmp (fprintf_stderr ''Failed to get free memory info!'' st2))))"

text \<open>Lines 120 to 127: the guard on the free memory and the batch size.\<close>

definition not_enough_memory :: "config \<Rightarrow> 64 word \<Rightarrow> bool" where
  "not_enough_memory cfg free \<longleftrightarrow>
     free \<le> DATASET_SIZE cfg + (32 * SCRATCHPAD_SIZE cfg) + push_bit 20 64"

definition plan_batch_size :: "config \<Rightarrow> 64 word \<Rightarrow> 64 word" where
  "plan_batch_size cfg free =
     (((free - DATASET_SIZE cfg - push_bit 20 64) div SCRATCHPAD_SIZE cfg) div 32) * 32"

definition check_memory :: "config \<Rightarrow> stmt" where
  "check_memory cfg st =
     (if not_enough_memory cfg (free_mem st) then fail ''Not enough free GPU memory!'' st
      else Inr (st\<lparr>batch_size := plan_batch_size cfg (free_mem st)\<rparr>))"

text \<open>A \<^verbatim>\<open>GPUPtr\<close> declaration followed by its null check.\<close>

definition allocate :: "device \<Rightarrow> buffer \<Rightarrow> 64 word \<Rightarrow> string \<Rightarrow> stmt" where
  "allocate dev b n m st =
     (case GPUPtr dev b n st of (r, st') \<Rightarrow> if r then Inr st' else fail m st')"

text \<open>A runtime call whose status is compared with \<^verbatim>\<open>cudaSuccess\<close>.\<close>

definition checked_call :: "device \<Rightarrow> event \<Rightarrow> string \<Rightarrow> stmt" where
  "checked_call dev e m st =
     (case runtime_call dev e st of (r, st') \<Rightarrow> if r then Inr st' else fail m st')"

text \<open>Line 190: the second memory query, which overwrites \<^verbatim>\<open>free_mem\<close>.\<close>

definition query_memory_left :: "device \<Rightarrow> stmt" where
  "query_memory_left dev st =
     (case runtime_call dev MemGetInfo st of
        (r, st') \<Rightarrow>
          if r then Inr (st'\<lparr>free_mem := reported_free dev (calls st)\<rparr>)
          else fail ''Failed to get free memory info!'' st')"

text \<open>Lines 106 to 197: everything before the loop.\<close>

definition prelude :: "config \<Rightarrow> device \<Rightarrow> stmt list" where
  "prelude cfg dev =
     [query_memory dev,
      check_memory cfg,
      allocate dev Dataset (DATASET_SIZE cfg) ''Failed to allocate GPU memory for dataset!'',
      (\<lambda>st. allocate dev Scratchpads (batch_size st * SCRATCHPAD_SIZE cfg)
               ''Failed to allocate GPU memory for scratchpads!'' st),
      (\<lambda>st. allocate dev Hashes (batch_size st * HASH_SIZE cfg)
               ''Failed to allocate GPU memory for hashes!'' st),
      (\<lambda>st. allocate dev Programs (batch_size st * PROGRAM_SIZE cfg)
               ''Failed to allocate GPU memory for programs!'' st),
      (\<lambda>st. allocate dev Registers (batch_size st * REGISTERS_SIZE cfg)
               ''Failed to allocate GPU memory for registers!'' st),
      checked_call dev (Memset Registers) ''Failed to initialize GPU memory for registers!'',
      allocate dev BlockTemplate 76 ''Failed to allocate GPU memory for block template!'',
      checked_call dev (MemcpyToDevice BlockTemplate) ''Failed to copy block template to GPU'',
      query_memory_left dev]"

subsection \<open>One batch\<close>

text \<open>A kernel launch, and a launch followed by the \<^verbatim>\<open>cudaGetLastError\<close> check.\<close>

definition launch :: "device \<Rightarrow> kernel \<Rightarrow> arg list \<Rightarrow> state \<Rightarrow> state" where
  "launch dev k as st = snd (runtime_call dev (Launch k as) st)"

definition checked_launch :: "device \<Rightarrow> kernel \<Rightarrow> arg list \<Rightarrow> string \<Rightarrow> stmt" where
  "checked_launch dev k as m st =
     (case cudaGetLastError (launch dev k as st) of
        (r, st') \<Rightarrow> if r then Inr st' else fail m st')"

text \<open>Lines 230 to 265: the body of the loop over the programs, at counter \<open>i\<close>.\<close>

definition program_round :: "config \<Rightarrow> device \<Rightarrow> nat \<Rightarrow> stmt list" where
  "program_round cfg dev i =
     [(\<lambda>st. checked_launch dev (FillAes1Rx4 False)
               [Buf Hashes, Buf Programs, Batch (batch_size st)]
               ''fillAes1Rx4 launch failed'' st),
      (\<lambda>st. Inr (launch dev InitGroupA_registers [Buf Programs, Buf Registers] st))]
     @ (if i = PROGRAM_COUNT cfg - 1
        then [(\<lambda>st. checked_launch dev HashAes1Rx4
                       [Buf Scratchpads, Buf Registers, Batch (batch_size st)]
                       ''hashAes1Rx4 launch failed'' st),
              checked_launch dev (Blake2b_hash_registers 32) [Buf Hashes, Buf Registers]
                ''blake2b_hash_registers launch failed'']
        else [checked_launch dev (Blake2b_hash_registers 64) [Buf Hashes, Buf Registers]
                ''blake2b_hash_registers launch failed''])"

text \<open>Lines 214 to 272: the body of the loop over the nonces.\<close>

definition mining_batch :: "config \<Rightarrow> device \<Rightarrow> stmt list" where
  "mining_batch cfg dev =
     [(\<lambda>st. checked_launch dev Blake2b_initial_hash
               [Buf Hashes, Buf BlockTemplate, Nonce (nonce st)]
               ''blake2b_initial_hash launch failed'' st),
      (\<lambda>st. checked_launch dev (FillAes1Rx4 True)
               [Buf Hashes, Buf Scratchpads, Batch (batch_size st)]
               ''fillAes1Rx4 launch failed'' st)]
     @ concat (map (program_round cfg dev) [0..<PROGRAM_COUNT cfg])
     @ [checked_call dev DeviceSynchronize ''cudaDeviceSynchronize returned error code'']"

subsection \<open>The loop over the nonces\<close>

text \<open>
  \<^verbatim>\<open>for (uint32_t nonce = 0; nonce < 0xFFFFFFFFUL; nonce += batch_size)\<close>. The loop has no
  bound of its own, so the model runs it on fuel: the number of batches an observer
  waits for. \<open>Running\<close> says that the loop is still inside \<^verbatim>\<open>test_mining\<close> when the fuel is
  spent; \<open>Returned b\<close> that the function has returned \<open>b\<close>. The addition is done in
  \<^verbatim>\<open>size_t\<close> and stored back into the 32-bit counter. \<open>mining_loop\<close> is the loop from its
  guard on; \<open>test_mining\<close> enters it with \<^verbatim>\<open>nonce = 0\<close>.
\<close>

datatype outcome = Returned bool | Running

fun mining_loop :: "nat \<Rightarrow> config \<Rightarrow> device \<Rightarrow> state \<Rightarrow> outcome \<times> state" where
  "mining_loop fuel cfg dev st =
     (if nonce st < 0xFFFFFFFF then
        (case fuel of
           0 \<Rightarrow> (Running, st)
         | Suc fuel' \<Rightarrow>
             (case run_steps (mining_batch cfg dev) st of
                Inl st' \<Rightarrow> (Returned False, st')
              | Inr st' \<Rightarrow>
                  mining_loop fuel' cfg dev
                    (st'\<lparr>nonce := ucast ((ucast (nonce st') :: 64 word) + batch_size st')\<rparr>)))
      else (Returned True, st))"

declare mining_loop.simps [simp del]

definition test_mining :: "nat \<Rightarrow> config \<Rightarrow> device \<Rightarrow> outcome \<times> state" where
  "test_mining fuel cfg dev =
     (case run_steps (prelude cfg dev) initial_state of
        Inl st \<Rightarrow> (Returned False, release dev st)
      | Inr st \<Rightarrow>
          (case mining_loop fuel cfg dev (st\<lparr>nonce := 0\<rparr>) of
             (Running, st') \<Rightarrow> (Running, st')
           | (Returned b, st') \<Rightarrow> (Returned b, release dev st')))"

subsection \<open>Reading a trace\<close>

text \<open>The kernels launched, in order, and the nonce arguments passed to them.\<close>

fun kernel_of :: "event \<Rightarrow> kernel list" where
  "kernel_of (Launch k as) = [k]"
| "kernel_of _ = []"

definition kernels_of :: "event list \<Rightarrow> kernel list" where
  "kernels_of es = concat (map kernel_of es)"

fun arg_nonce :: "arg \<Rightarrow> 32 word list" where
  "arg_nonce (Nonce n) = [n]"
| "arg_nonce _ = []"

fun nonce_of :: "event \<Rightarrow> 32 word list" where
  "nonce_of (Launch k as) = concat (map arg_nonce as)"
| "nonce_of _ = []"

definition nonces_of :: "event list \<Rightarrow> 32 word list" where
  "nonces_of es = concat (map nonce_of es)"

fun is_launch :: "event \<Rightarrow> bool" where
  "is_launch (Launch k as) = True"
| "is_launch _ = False"

fun is_malloc :: "event \<Rightarrow> bool" where
  "is_malloc (Malloc b n) = True"
| "is_malloc _ = False"

text \<open>A host call that writes the device copy of the block template.\<close>

fun host_write :: "event \<Rightarrow> bool" where
  "host_write (MemcpyToDevice b) = (b = BlockTemplate)"
| "host_write (Memset b) = (b = BlockTemplate)"
| "host_write _ = False"

definition uploads :: "event list \<Rightarrow> nat" where
  "uploads es = length (filter host_write es)"

text \<open>A launch that is handed the block template is a launch of the initial hash.\<close>

fun template_reader :: "event \<Rightarrow> bool" where
  "template_reader (Launch k as) = (Buf BlockTemplate \<in> set as \<longrightarrow> k = Blake2b_initial_hash)"
| "template_reader _ = True"

text \<open>
  The round of the protocol as the specification words it (4.4, step 3): fill the
  program buffer, initialise the registers, on the last of \<open>n\<close> rounds compress the
  scratchpad, then fold the registers, to 32 bytes on the last round and to 64 bytes on
  the others.
\<close>

definition protocol_round :: "nat \<Rightarrow> nat \<Rightarrow> kernel list" where
  "protocol_round n i =
     [FillAes1Rx4 False, InitGroupA_registers]
     @ (if i = n - 1 then [HashAes1Rx4, Blake2b_hash_registers 32]
        else [Blake2b_hash_registers 64])"

subsection \<open>Sample inputs\<close>

text \<open>
  The sizes RandomX used when the file was written (a 2 GiB dataset, 2 MiB scratchpads,
  eight programs per hash), a device on which every call succeeds and which reports 4 GiB
  free, one that reports no free memory, and one on which the sixteenth runtime call,
  the first launch of \<^verbatim>\<open>initGroupA_registers\<close>, fails.
\<close>

definition sample_config :: config where
  "sample_config =
     \<lparr>DATASET_SIZE = 2147483648, SCRATCHPAD_SIZE = 2097152, HASH_SIZE = 64,
      PROGRAM_SIZE = 2176, REGISTERS_SIZE = 256, PROGRAM_COUNT = 8\<rparr>"

definition healthy_device :: device where
  "healthy_device =
     \<lparr>ok = (\<lambda>n. True), reported_free = (\<lambda>n. 4294967296), readback = (\<lambda>n k. 0)\<rparr>"

definition full_device :: device where
  "full_device = \<lparr>ok = (\<lambda>n. True), reported_free = (\<lambda>n. 0), readback = (\<lambda>n k. 0)\<rparr>"

definition faulty_device :: device where
  "faulty_device =
     \<lparr>ok = (\<lambda>n. n \<noteq> 15), reported_free = (\<lambda>n. 4294967296), readback = (\<lambda>n k. 0)\<rparr>"

subsection \<open>Relations between states used in the proofs\<close>

definition final :: "state + state \<Rightarrow> state" where
  "final r = (case r of Inl s \<Rightarrow> s | Inr s \<Rightarrow> s)"

text \<open>The later state has the trace of the earlier one, extended by events that satisfy \<open>P\<close>.\<close>

definition appends :: "(event \<Rightarrow> bool) \<Rightarrow> state \<Rightarrow> state \<Rightarrow> bool" where
  "appends P st st' \<longleftrightarrow> (\<exists>evs. trace st' = trace st @ evs \<and> list_all P evs)"

definition stmt_appends :: "(event \<Rightarrow> bool) \<Rightarrow> stmt \<Rightarrow> bool" where
  "stmt_appends P f \<longleftrightarrow> (\<forall>st. appends P st (final (f st)))"

definition in_prelude :: "event \<Rightarrow> bool" where
  "in_prelude e \<longleftrightarrow> \<not> is_launch e \<and> \<not> host_write e"

definition in_loop :: "event \<Rightarrow> bool" where
  "in_loop e \<longleftrightarrow> \<not> host_write e \<and> template_reader e"

text \<open>A statement that continues, and launches exactly the kernels \<open>ks\<close> when it does.\<close>

definition launches :: "stmt \<Rightarrow> kernel list \<Rightarrow> bool" where
  "launches f ks \<longleftrightarrow>
     (\<forall>st st'. f st = Inr st' \<longrightarrow>
        (\<exists>evs. trace st' = trace st @ evs \<and> kernels_of evs = ks))"

text \<open>What a statement without a nonce argument does on a device that never fails.\<close>

definition quiet :: "state \<Rightarrow> state \<Rightarrow> bool" where
  "quiet st st' \<longleftrightarrow>
     \<not> last_error st' \<and> nonce st' = nonce st \<and> batch_size st' = batch_size st
     \<and> nonces_of (trace st') = nonces_of (trace st)"

definition succeeds :: "stmt \<Rightarrow> bool" where
  "succeeds f \<longleftrightarrow> (\<forall>st. \<not> last_error st \<longrightarrow> (\<exists>st'. f st = Inr st' \<and> quiet st st'))"

section \<open>The validation harness\<close>

text \<open>
  \<^verbatim>\<open>tests\<close> runs each kernel on a batch of \<^verbatim>\<open>NUM_SCRATCHPADS_TEST\<close> lanes, copies what the
  device wrote back to the host and compares it with what the sequential reference
  functions compute for the same lanes. The reference functions \<^verbatim>\<open>blake2b\<close>,
  \<^verbatim>\<open>fillAes1Rx4<false>\<close> and \<^verbatim>\<open>hashAes1Rx4<false>\<close> come from headers that are not at hand;
  they are parameters of the model. The model covers the test cases, lines 278 to 540;
  the benchmark loops that follow compare nothing and are left out.
\<close>

subsection \<open>Host memory\<close>

type_synonym bytes = "8 word list"

definition bytes_at :: "bytes \<Rightarrow> nat \<Rightarrow> nat \<Rightarrow> bytes" where
  "bytes_at buf off n = take n (drop off buf)"

text \<open>Writing \<open>data\<close> into a buffer at byte offset \<open>off\<close>.\<close>

definition store :: "bytes \<Rightarrow> nat \<Rightarrow> bytes \<Rightarrow> bytes" where
  "store buf off data = take off buf @ data @ drop (off + length data) buf"

text \<open>\<^verbatim>\<open>memcmp(a + i, b + j, n) == 0\<close>.\<close>

definition same_bytes :: "bytes \<Rightarrow> nat \<Rightarrow> bytes \<Rightarrow> nat \<Rightarrow> nat \<Rightarrow> bool" where
  "same_bytes a i b j n \<longleftrightarrow> bytes_at a i n = bytes_at b j n"

text \<open>The bytes of a \<^verbatim>\<open>uint32_t\<close> in memory, on the little-endian host.\<close>

definition le32 :: "32 word \<Rightarrow> bytes" where
  "le32 w = [ucast w, ucast (drop_bit 8 w), ucast (drop_bit 16 w), ucast (drop_bit 24 w)]"

text \<open>Lines 75 to 80: the block template, 76 bytes, with its nonce at bytes 39 to 42.\<close>

definition blockTemplate_init :: bytes where
  "blockTemplate_init =
     [0x07, 0x07, 0xf7, 0xa4, 0xf0, 0xd6, 0x05, 0xb3, 0x03, 0x26, 0x08, 0x16, 0xba, 0x3f, 0x10,
      0x90, 0x2e, 0x1a, 0x14, 0x5a, 0xc5, 0xfa, 0xd3, 0xaa, 0x3a, 0xf6, 0xea, 0x44, 0xc1, 0x18,
      0x69, 0xdc, 0x4f, 0x85, 0x3f, 0x00, 0x2b, 0x2e, 0xea, 0x00, 0x00, 0x00, 0x00, 0x77, 0xb2,
      0x06, 0xa0, 0x2c, 0xa5, 0xb1, 0xd4, 0xce, 0x6b, 0xbf, 0xdf, 0x0a, 0xca, 0xc3, 0x8b, 0xde,
      0xd3, 0x4d, 0x2d, 0xcd, 0xee, 0xf9, 0x5c, 0xd2, 0x0c, 0xef, 0xc1, 0x2f, 0x61, 0xd5, 0x61,
      0x09]"

text \<open>
  The reference functions, as the harness calls them: \<^verbatim>\<open>blake2b(out, outlen, in, inlen, nullptr, 0)\<close>
  maps a digest length and a message to the digest; \<^verbatim>\<open>fillAes1Rx4<false>(state, size, buffer)\<close>
  maps a 64-byte state and a size to the state it leaves behind and the bytes it writes;
  \<^verbatim>\<open>hashAes1Rx4<false>(input, size, hash)\<close> maps the input bytes to a 64-byte hash.
\<close>

record primitives =
  blake2b_fn :: "nat \<Rightarrow> bytes \<Rightarrow> bytes"
  fillAes_fn :: "bytes \<Rightarrow> nat \<Rightarrow> bytes \<times> bytes"
  hashAes_fn :: "bytes \<Rightarrow> bytes"

text \<open>The host arrays of \<^verbatim>\<open>tests\<close> and the global \<^verbatim>\<open>blockTemplate\<close>.\<close>

record memory =
  hash :: bytes
  hash2 :: bytes
  scratchpads :: bytes
  programs :: bytes
  registers :: bytes
  registers2 :: bytes
  blockTemplate :: bytes

text \<open>
  Lines 284 to 291, for \<open>n\<close> lanes: the source has \<open>n = 128\<close>. The vectors hold the
  device's output in their first half and the reference's in their second.
\<close>

definition NUM_SCRATCHPADS_TEST :: nat where
  "NUM_SCRATCHPADS_TEST = 128"

definition initial_memory :: "config \<Rightarrow> nat \<Rightarrow> memory" where
  "initial_memory cfg n =
     \<lparr>hash = replicate (64 * n) 0,
      hash2 = replicate (64 * n) 0,
      scratchpads = replicate (unat (SCRATCHPAD_SIZE cfg) * n * 2) 0,
      programs = replicate (unat (PROGRAM_SIZE cfg) * n * 2) 0,
      registers = replicate (n * unat (REGISTERS_SIZE cfg)) 0,
      registers2 = replicate (n * unat (REGISTERS_SIZE cfg)) 0,
      blockTemplate = blockTemplate_init\<rparr>"

subsection \<open>Statements of the harness\<close>

type_synonym test_stmt = "state \<times> memory \<Rightarrow> state \<times> memory + state \<times> memory"

definition on_device :: "stmt \<Rightarrow> test_stmt" where
  "on_device f = (\<lambda>(st, m). case f st of Inl a \<Rightarrow> Inl (a, m) | Inr b \<Rightarrow> Inr (b, m))"

definition on_host :: "(memory \<Rightarrow> memory) \<Rightarrow> test_stmt" where
  "on_host g = (\<lambda>(st, m). Inr (st, g m))"

definition printf :: "string \<Rightarrow> test_stmt" where
  "printf msg = (\<lambda>(st, m). Inr (st\<lparr>trace := trace st @ [Stdout msg]\<rparr>, m))"

text \<open>\<^verbatim>\<open>if (!cond) { fprintf(stderr, msg); return; }\<close>\<close>

definition require :: "(memory \<Rightarrow> bool) \<Rightarrow> string \<Rightarrow> test_stmt" where
  "require cond msg = (\<lambda>(st, m). if cond m then Inr (st, m) else Inl (fprintf_stderr msg st, m))"

text \<open>A checked \<^verbatim>\<open>cudaMemcpy\<close> of \<open>len\<close> bytes from the device into a host array.\<close>

definition memcpy_to_host ::
  "device \<Rightarrow> buffer \<Rightarrow> nat \<Rightarrow> (bytes \<Rightarrow> memory \<Rightarrow> memory) \<Rightarrow> test_stmt" where
  "memcpy_to_host dev b len put =
     (\<lambda>(st, m). case runtime_call dev (MemcpyToHost b) st of
        (r, st') \<Rightarrow>
          if r then Inr (st', put (map (readback dev (calls st)) [0..<len]) m)
          else Inl (fprintf_stderr ''cudaMemcpy failed!'' st', m))"

definition put_hash :: "bytes \<Rightarrow> memory \<Rightarrow> memory" where
  "put_hash d m = m\<lparr>hash := store (hash m) 0 d\<rparr>"

definition put_scratchpads :: "bytes \<Rightarrow> memory \<Rightarrow> memory" where
  "put_scratchpads d m = m\<lparr>scratchpads := store (scratchpads m) 0 d\<rparr>"

definition put_programs :: "bytes \<Rightarrow> memory \<Rightarrow> memory" where
  "put_programs d m = m\<lparr>programs := store (programs m) 0 d\<rparr>"

definition put_registers :: "bytes \<Rightarrow> memory \<Rightarrow> memory" where
  "put_registers d m = m\<lparr>registers := store (registers m) 0 d\<rparr>"

text \<open>The check after a launch in the first four test cases.\<close>

definition synchronize :: "device \<Rightarrow> test_stmt" where
  "synchronize dev =
     on_device (checked_call dev DeviceSynchronize ''cudaDeviceSynchronize returned error code'')"

text \<open>Lines 293 to 338: the device buffers and the upload of the template.\<close>

definition tests_prelude :: "config \<Rightarrow> nat \<Rightarrow> device \<Rightarrow> test_stmt list" where
  "tests_prelude cfg n dev =
     [on_device (allocate dev Hashes (64 * of_nat n) ''cudaMalloc failed!''),
      on_device (allocate dev BlockTemplate 76 ''cudaMalloc failed!''),
      on_device (allocate dev NonceOut 8 ''cudaMalloc failed!''),
      on_device (\<lambda>st. case GPUPtr dev States (64 * of_nat n * 2048) st of
                         (r, st') \<Rightarrow> if r then Inr st' else Inl st'),
      on_device (allocate dev Scratchpads (SCRATCHPAD_SIZE cfg * 2048) ''cudaMalloc failed!''),
      on_device (allocate dev Programs (SCRATCHPAD_SIZE cfg * of_nat n) ''cudaMalloc failed!''),
      on_device (allocate dev Registers (REGISTERS_SIZE cfg * of_nat n) ''cudaMalloc failed!''),
      on_device (checked_call dev (MemcpyToDevice BlockTemplate) ''cudaMemcpy failed!'')]"

subsection \<open>The initial hash\<close>

text \<open>
  Lines 355 to 359, one turn of the loop: the nonce field of the global template is
  overwritten in place with the lane index and the template is hashed to 64 bytes at
  \<^verbatim>\<open>hash2 + i * 8\<close>.
\<close>

definition reference_initial_hash :: "primitives \<Rightarrow> nat \<Rightarrow> memory \<Rightarrow> memory" where
  "reference_initial_hash prims i m =
     (let t = store (blockTemplate m) 39 (le32 (of_nat i))
      in m\<lparr>blockTemplate := t, hash2 := store (hash2 m) (i * 64) (blake2b_fn prims 64 t)\<rparr>)"

text \<open>Lines 340 to 368.\<close>

definition initial_hash_test :: "primitives \<Rightarrow> nat \<Rightarrow> device \<Rightarrow> test_stmt list" where
  "initial_hash_test prims n dev =
     [on_device (\<lambda>st. Inr (launch dev Blake2b_initial_hash
                              [Buf Hashes, Buf BlockTemplate, Nonce 0] st)),
      synchronize dev,
      memcpy_to_host dev Hashes (64 * n) put_hash,
      on_host (fold (reference_initial_hash prims) [0..<n]),
      require (\<lambda>m. same_bytes (hash m) 0 (hash2 m) 0 (64 * n))
        ''blake2b_initial_hash test failed!'',
      printf ''blake2b_initial_hash test passed'']"

subsection \<open>The scratchpad fill\<close>

text \<open>
  Lines 401 to 410: the loop over the 64-byte chunks of lane \<open>i\<close>, from offset \<open>j\<close> on.
  \<open>p1\<close> is \<open>i * 64\<close> bytes into the device's output, \<open>p2\<close> is the reference's output for the
  lane, and chunk \<open>j\<close> of the lane is looked for at \<open>p1 + j * n\<close>.
\<close>

function chunks_match :: "nat \<Rightarrow> nat \<Rightarrow> nat \<Rightarrow> bytes \<Rightarrow> nat \<Rightarrow> bool" where
  "chunks_match S n i buf j =
     (if j < S then
        (if same_bytes buf (i * 64 + j * n) buf (S * (n + i) + j) 64
         then chunks_match S n i buf (j + 64) else False)
      else True)"
  by pat_completeness auto
termination
  by (relation "measure (\<lambda>(S, n, i, buf, j). S - j)") auto

declare chunks_match.simps [simp del]

text \<open>Lines 391 to 411, one turn of the loop over the lanes.\<close>

definition fill_scratchpad_lane :: "primitives \<Rightarrow> nat \<Rightarrow> nat \<Rightarrow> nat \<Rightarrow> test_stmt" where
  "fill_scratchpad_lane prims S n i =
     (\<lambda>(st, m).
        case fillAes_fn prims (bytes_at (hash2 m) (i * 64) 64) S of
          (state', out) \<Rightarrow>
            let m1 = m\<lparr>hash2 := store (hash2 m) (i * 64) state',
                       scratchpads := store (scratchpads m) (S * (n + i)) out\<rparr>
            in if \<not> same_bytes (hash m1) (i * 64) (hash2 m1) (i * 64) 64
               then Inl (fprintf_stderr ''fillAes1Rx4 test (hash) failed!'' st, m1)
               else if \<not> chunks_match S n i (scratchpads m1) 0
               then Inl (fprintf_stderr ''fillAes1Rx4 test (scratchpad) failed!'' st, m1)
               else Inr (st, m1))"

text \<open>Lines 370 to 414.\<close>

definition fill_scratchpads_test :: "primitives \<Rightarrow> config \<Rightarrow> nat \<Rightarrow> device \<Rightarrow> test_stmt list" where
  "fill_scratchpads_test prims cfg n dev =
     [on_device (\<lambda>st. Inr (launch dev (FillAes1Rx4 True)
                              [Buf Hashes, Buf Scratchpads, Batch (of_nat n)] st)),
      synchronize dev,
      memcpy_to_host dev Hashes (64 * n) put_hash,
      memcpy_to_host dev Scratchpads (unat (SCRATCHPAD_SIZE cfg) * n) put_scratchpads]
     @ map (fill_scratchpad_lane prims (unat (SCRATCHPAD_SIZE cfg)) n) [0..<n]
     @ [printf ''fillAes1Rx4 (scratchpads) test passed'']"

subsection \<open>The program fill\<close>

text \<open>Lines 437 to 452, one turn of the loop over the lanes.\<close>

definition fill_program_lane :: "primitives \<Rightarrow> nat \<Rightarrow> nat \<Rightarrow> nat \<Rightarrow> test_stmt" where
  "fill_program_lane prims P n i =
     (\<lambda>(st, m).
        case fillAes_fn prims (bytes_at (hash2 m) (i * 64) 64) P of
          (state', out) \<Rightarrow>
            let m1 = m\<lparr>hash2 := store (hash2 m) (i * 64) state',
                       programs := store (programs m) (P * (n + i)) out\<rparr>
            in if \<not> same_bytes (hash m1) (i * 64) (hash2 m1) (i * 64) 64
               then Inl (fprintf_stderr ''fillAes1Rx4 test (hash) failed!'' st, m1)
               else if \<not> same_bytes (programs m1) (i * P) (programs m1) ((n + i) * P) P
               then Inl (fprintf_stderr ''fillAes1Rx4 test (program) failed!'' st, m1)
               else Inr (st, m1))"

text \<open>Lines 416 to 455.\<close>

definition fill_programs_test :: "primitives \<Rightarrow> config \<Rightarrow> nat \<Rightarrow> device \<Rightarrow> test_stmt list" where
  "fill_programs_test prims cfg n dev =
     [on_device (\<lambda>st. Inr (launch dev (FillAes1Rx4 False)
                              [Buf Hashes, Buf Programs, Batch (of_nat n)] st)),
      synchronize dev,
      memcpy_to_host dev Hashes (64 * n) put_hash,
      memcpy_to_host dev Programs (unat (PROGRAM_SIZE cfg) * n) put_programs]
     @ map (fill_program_lane prims (unat (PROGRAM_SIZE cfg)) n) [0..<n]
     @ [printf ''fillAes1Rx4 (programs) test passed'']"

subsection \<open>The scratchpad hash\<close>

text \<open>Lines 472 to 481, one turn of the loop over the lanes.\<close>

definition hashAes_lane :: "primitives \<Rightarrow> nat \<Rightarrow> nat \<Rightarrow> nat \<Rightarrow> nat \<Rightarrow> test_stmt" where
  "hashAes_lane prims S R n i =
     (\<lambda>(st, m).
        let m1 = m\<lparr>registers2 := store (registers2 m) (R * i + 192)
                                     (hashAes_fn prims (bytes_at (scratchpads m) (S * (n + i)) S))\<rparr>
        in if \<not> same_bytes (registers m1) (i * R) (registers2 m1) (i * R) R
           then Inl (fprintf_stderr ''hashAes1Rx4 test failed!'' st, m1)
           else Inr (st, m1))"

text \<open>Lines 457 to 484.\<close>

definition hashAes_test :: "primitives \<Rightarrow> config \<Rightarrow> nat \<Rightarrow> device \<Rightarrow> test_stmt list" where
  "hashAes_test prims cfg n dev =
     [on_device (\<lambda>st. Inr (launch dev HashAes1Rx4
                              [Buf Scratchpads, Buf Registers, Batch (of_nat n)] st)),
      synchronize dev,
      memcpy_to_host dev Registers (n * unat (REGISTERS_SIZE cfg)) put_registers]
     @ map (hashAes_lane prims (unat (SCRATCHPAD_SIZE cfg)) (unat (REGISTERS_SIZE cfg)) n) [0..<n]
     @ [printf ''hashAes1Rx4 test passed'']"

subsection \<open>The register hash\<close>

text \<open>
  Lines 500 to 503 and 528 to 531, one turn of the loop: the registers of lane \<open>i\<close> are
  hashed to \<open>w\<close> bytes at byte offset \<open>i * w\<close> of \<^verbatim>\<open>hash2\<close>.
\<close>

definition reference_hash_registers :: "primitives \<Rightarrow> nat \<Rightarrow> nat \<Rightarrow> nat \<Rightarrow> memory \<Rightarrow> memory" where
  "reference_hash_registers prims R w i m =
     m\<lparr>hash2 := store (hash2 m) (i * w) (blake2b_fn prims w (bytes_at (registers2 m) (i * R) R))\<rparr>"

text \<open>Lines 486 to 512 for \<open>w = 32\<close>, lines 514 to 540 for \<open>w = 64\<close>.\<close>

definition hash_registers_test ::
  "primitives \<Rightarrow> config \<Rightarrow> nat \<Rightarrow> nat \<Rightarrow> string \<Rightarrow> string \<Rightarrow> device \<Rightarrow> test_stmt list" where
  "hash_registers_test prims cfg n w failed passed dev =
     [on_device (checked_launch dev (Blake2b_hash_registers w) [Buf Hashes, Buf Registers]
                   ''blake2b_hash_registers launch failed''),
      memcpy_to_host dev Hashes (64 * n) put_hash,
      on_host (fold (reference_hash_registers prims (unat (REGISTERS_SIZE cfg)) w) [0..<n]),
      require (\<lambda>m. same_bytes (hash m) 0 (hash2 m) 0 (n * w)) failed,
      printf passed]"

subsection \<open>The test cases in sequence\<close>

definition test_cases :: "primitives \<Rightarrow> config \<Rightarrow> nat \<Rightarrow> device \<Rightarrow> test_stmt list" where
  "test_cases prims cfg n dev =
     tests_prelude cfg n dev
     @ initial_hash_test prims n dev
     @ fill_scratchpads_test prims cfg n dev
     @ fill_programs_test prims cfg n dev
     @ hashAes_test prims cfg n dev
     @ hash_registers_test prims cfg n 32
         ''blake2b_hash_registers (32 byte hash) test failed!''
         ''blake2b_hash_registers (32 byte hash) test passed'' dev
     @ hash_registers_test prims cfg n 64
         ''blake2b_hash_registers (64 byte hash) test failed!''
         ''blake2b_hash_registers (64 byte hash) test passed'' dev"

text \<open>
  \<^verbatim>\<open>tests\<close> up to the benchmarks. \<open>Inl\<close> is a \<^verbatim>\<open>return\<close> out of the test cases, after which the
  destructors release the buffers; \<open>Inr\<close> is the state in which the benchmarks start.
\<close>

definition tests_with :: "primitives \<Rightarrow> config \<Rightarrow> nat \<Rightarrow> device \<Rightarrow> state \<times> memory + state \<times> memory" where
  "tests_with prims cfg n dev =
     (case run_steps (test_cases prims cfg n dev) (initial_state, initial_memory cfg n) of
        Inl (st, m) \<Rightarrow> Inl (release dev st, m)
      | Inr s \<Rightarrow> Inr s)"

definition tests :: "primitives \<Rightarrow> config \<Rightarrow> device \<Rightarrow> state \<times> memory + state \<times> memory" where
  "tests prims cfg dev = tests_with prims cfg NUM_SCRATCHPADS_TEST dev"

text \<open>
  Lines 64 to 70 of \<^verbatim>\<open>main\<close>: what the process does once \<^verbatim>\<open>tests\<close> or \<^verbatim>\<open>test_mining\<close> has
  returned, whatever it returned. The result is the exit status.
\<close>

definition main_exit :: "device \<Rightarrow> state \<Rightarrow> int \<times> state" where
  "main_exit dev st =
     (case runtime_call dev DeviceReset st of
        (r, st') \<Rightarrow> if r then (0, st') else (1, fprintf_stderr ''cudaDeviceReset failed!'' st'))"

subsection \<open>The layouts of a region\<close>


subsection \<open>The initial hash kernel\<close>

text \<open>
  Modelled from the spec: the kernel \<^verbatim>\<open>blake2b_initial_hash\<close> is defined in
  \<^verbatim>\<open>blake2b_cuda.hpp\<close>, which is not at hand. Section 4.2: for each lane it "computes the
  keyed sponge hash of template with its nonce field overwritten by nonce_base +
  lane_index" and "produces a 64-byte digest"; section 6: the nonce is a "32-bit
  little-endian nonce field at a fixed byte offset", which the harness places at byte 39.
  The hash is the reference function itself, the addition is that of the 32-bit nonce
  argument, and the digests of the lanes lie one after the other in the output buffer.
\<close>

definition initial_hash :: "primitives \<Rightarrow> bytes \<Rightarrow> 32 word \<Rightarrow> nat \<Rightarrow> bytes" where
  "initial_hash prims T B i = blake2b_fn prims 64 (store T 39 (le32 (B + of_nat i)))"

definition blake2b_initial_hash_kernel :: "primitives \<Rightarrow> bytes \<Rightarrow> 32 word \<Rightarrow> nat \<Rightarrow> bytes" where
  "blake2b_initial_hash_kernel prims T B n = concat (map (initial_hash prims T B) [0..<n])"

subsection \<open>The fill kernel\<close>






subsection \<open>The hash primitive\<close>

text \<open>
  Modelled from the spec: the reference function \<^verbatim>\<open>blake2b\<close> is declared in
  \<^verbatim>\<open>blake2/blake2.h\<close>, which is not at hand. The glossary calls it "the
  sponge-construction hash primitive producing 32- or 64-byte outputs", section 4.2 speaks
  of its "initialization vector and block-absorption schedule", of its "standard padding
  rule" and of an "output-length encoding inside the primitive". The source calls it as
  \<^verbatim>\<open>blake2b(out, outlen, in, inlen, nullptr, 0)\<close> (lines 358, 502 and 530), the
  interface of BLAKE2b without a key, so the definitions follow RFC 7693: the
  initialization vector, the message schedule, the mixing function \<open>G\<close> with the rotations
  32, 24, 16 and 63, twelve rounds for each block of 128 bytes, a last block padded with
  zeros, and the output length in the low byte of the parameter word that is mixed into
  the first word of the state.
\<close>

definition blake2b_IV :: "64 word list" where
  "blake2b_IV =
     [0x6a09e667f3bcc908, 0xbb67ae8584caa73b, 0x3c6ef372fe94f82b, 0xa54ff53a5f1d36f1,
      0x510e527fade682d1, 0x9b05688c2b3e6c1f, 0x1f83d9abfb41bd6b, 0x5be0cd19137e2179]"

definition blake2b_sigma :: "nat list list" where
  "blake2b_sigma =
     [[0, 1, 2, 3, 4, 5, 6, 7, 8, 9, 10, 11, 12, 13, 14, 15],
      [14, 10, 4, 8, 9, 15, 13, 6, 1, 12, 0, 2, 11, 7, 5, 3],
      [11, 8, 12, 0, 5, 2, 15, 13, 10, 14, 3, 6, 7, 1, 9, 4],
      [7, 9, 3, 1, 13, 12, 11, 14, 2, 6, 5, 10, 4, 0, 15, 8],
      [9, 0, 5, 7, 2, 4, 10, 15, 14, 1, 11, 12, 6, 8, 3, 13],
      [2, 12, 6, 10, 0, 11, 8, 3, 4, 13, 7, 5, 15, 14, 1, 9],
      [12, 5, 1, 15, 14, 13, 4, 10, 0, 7, 6, 3, 9, 2, 8, 11],
      [13, 11, 7, 14, 12, 1, 3, 9, 5, 0, 15, 4, 8, 6, 2, 10],
      [6, 15, 14, 9, 11, 3, 0, 8, 12, 2, 13, 7, 1, 4, 10, 5],
      [10, 2, 8, 4, 7, 6, 1, 5, 15, 11, 9, 14, 3, 12, 13, 0]]"

definition rotr64 :: "nat \<Rightarrow> 64 word \<Rightarrow> 64 word" where
  "rotr64 n w = drop_bit n w OR push_bit (64 - n) w"

text \<open>
  The two kinds of assignment of the mixing function, on the working vector \<open>v\<close>:
  \<open>v[a] := v[a] + v[b] + x\<close> and \<open>v[d] := (v[d] ^ v[a]) >>> r\<close>.
\<close>

definition G_add :: "nat \<Rightarrow> nat \<Rightarrow> 64 word \<Rightarrow> 64 word list \<Rightarrow> 64 word list" where
  "G_add a b x v = v[a := v ! a + v ! b + x]"

definition G_rot :: "nat \<Rightarrow> nat \<Rightarrow> nat \<Rightarrow> 64 word list \<Rightarrow> 64 word list" where
  "G_rot d a r v = v[d := rotr64 r (v ! d XOR v ! a)]"

definition blake2b_G ::
  "nat \<Rightarrow> nat \<Rightarrow> nat \<Rightarrow> nat \<Rightarrow> 64 word \<Rightarrow> 64 word \<Rightarrow> 64 word list \<Rightarrow> 64 word list" where
  "blake2b_G a b c d x y v =
     G_rot b c 63 (G_add c d 0 (G_rot d a 16 (G_add a b y
       (G_rot b c 24 (G_add c d 0 (G_rot d a 32 (G_add a b x v)))))))"

text \<open>One round: the four columns, then the four diagonals, with the message words \<open>m\<close>
  in the order \<open>s\<close> of the schedule.\<close>

definition blake2b_round :: "64 word list \<Rightarrow> nat list \<Rightarrow> 64 word list \<Rightarrow> 64 word list" where
  "blake2b_round m s v =
     blake2b_G 3 4 9 14 (m ! (s ! 14)) (m ! (s ! 15))
       (blake2b_G 2 7 8 13 (m ! (s ! 12)) (m ! (s ! 13))
         (blake2b_G 1 6 11 12 (m ! (s ! 10)) (m ! (s ! 11))
           (blake2b_G 0 5 10 15 (m ! (s ! 8)) (m ! (s ! 9))
             (blake2b_G 3 7 11 15 (m ! (s ! 6)) (m ! (s ! 7))
               (blake2b_G 2 6 10 14 (m ! (s ! 4)) (m ! (s ! 5))
                 (blake2b_G 1 5 9 13 (m ! (s ! 2)) (m ! (s ! 3))
                   (blake2b_G 0 4 8 12 (m ! (s ! 0)) (m ! (s ! 1)) v)))))))"

text \<open>
  The compression function \<open>F\<close> on the chaining value \<open>h\<close>, the sixteen words \<open>m\<close> of a
  block, the number \<open>t\<close> of bytes hashed so far and the flag of the last block.
\<close>

definition blake2b_start :: "64 word list \<Rightarrow> 128 word \<Rightarrow> bool \<Rightarrow> 64 word list" where
  "blake2b_start h t final_block =
     h @ take 4 blake2b_IV @
       [blake2b_IV ! 4 XOR ucast t, blake2b_IV ! 5 XOR ucast (drop_bit 64 t),
        (if final_block then blake2b_IV ! 6 XOR 0xFFFFFFFFFFFFFFFF else blake2b_IV ! 6),
        blake2b_IV ! 7]"

definition blake2b_rounds :: "64 word list \<Rightarrow> 64 word list \<Rightarrow> 64 word list" where
  "blake2b_rounds m v = fold (\<lambda>i. blake2b_round m (blake2b_sigma ! (i mod 10))) [0..<12] v"

definition blake2b_finish :: "64 word list \<Rightarrow> 64 word list \<Rightarrow> 64 word list" where
  "blake2b_finish h v = map (\<lambda>i. h ! i XOR v ! i XOR v ! (i + 8)) [0..<8]"

definition blake2b_F :: "64 word list \<Rightarrow> 64 word list \<Rightarrow> 128 word \<Rightarrow> bool \<Rightarrow> 64 word list" where
  "blake2b_F h m t final_block =
     blake2b_finish h (blake2b_rounds m (blake2b_start h t final_block))"

text \<open>Words and bytes, little-endian; a block shorter than 128 bytes is padded with zeros.\<close>

fun le64 :: "bytes \<Rightarrow> 64 word" where
  "le64 [] = 0"
| "le64 (b # bs) = ucast b OR push_bit 8 (le64 bs)"

definition le64_bytes :: "64 word \<Rightarrow> bytes" where
  "le64_bytes w = map (\<lambda>k. ucast (drop_bit (8 * k) w)) [0..<8]"

definition block_words :: "bytes \<Rightarrow> 64 word list" where
  "block_words blk = map (\<lambda>k. le64 (take 8 (drop (8 * k) (blk @ replicate 128 0)))) [0..<16]"

text \<open>The blocks of the message in turn; the last one, which may be empty or full, is
  compressed with the flag set.\<close>

function blake2b_blocks :: "64 word list \<Rightarrow> bytes \<Rightarrow> 128 word \<Rightarrow> 64 word list" where
  "blake2b_blocks h msg t =
     (if length msg \<le> 128 then blake2b_F h (block_words msg) (t + of_nat (length msg)) True
      else blake2b_blocks (blake2b_F h (block_words (take 128 msg)) (t + 128) False)
             (drop 128 msg) (t + 128))"
  by pat_completeness auto
termination
  by (relation "measure (\<lambda>(h, msg, t). length msg)") auto

declare blake2b_blocks.simps [simp del]

text \<open>
  The hash of \<open>msg\<close> with \<open>outlen\<close> bytes of output and no key. The parameter word
  \<open>0x0101kknn\<close> holds the key length \<open>kk = 0\<close> and the output length \<open>nn\<close>.
\<close>

definition blake2b :: "nat \<Rightarrow> bytes \<Rightarrow> bytes" where
  "blake2b outlen msg =
     take outlen (concat (map le64_bytes
       (blake2b_blocks (blake2b_IV[0 := blake2b_IV ! 0 XOR 0x01010000 XOR of_nat outlen]) msg 0)))"

subsection \<open>The register hash kernel\<close>

text \<open>
  Modelled from the spec: the kernel \<^verbatim>\<open>blake2b_hash_registers\<close> is defined in
  \<^verbatim>\<open>blake2b_cuda.hpp\<close>, which is not at hand. Section 4.2: \<open>fold_registers\<close> "computes
  the keyed sponge hash of a lane's register file (fixed length) producing either a
  32-byte or 64-byte digest depending on caller-selected width". The register file of lane
  \<open>i\<close> is the \<open>R\<close> bytes at byte offset \<open>i * R\<close> of the register buffer, the hash is the
  reference function with the width as its output length, and the digests of the lanes lie
  one after the other in the output buffer.
\<close>

definition fold_registers :: "primitives \<Rightarrow> nat \<Rightarrow> nat \<Rightarrow> bytes \<Rightarrow> nat \<Rightarrow> bytes" where
  "fold_registers prims R w regs i = blake2b_fn prims w (bytes_at regs (i * R) R)"

definition blake2b_hash_registers_kernel ::
  "primitives \<Rightarrow> nat \<Rightarrow> nat \<Rightarrow> bytes \<Rightarrow> nat \<Rightarrow> bytes" where
  "blake2b_hash_registers_kernel prims R w regs n =
     concat (map (fold_registers prims R w regs) [0..<n])"

subsection \<open>Sample data for the harness\<close>

text \<open>
  Stand-ins for the reference functions, with the right sizes and little else: the hash
  repeats the low nonce byte, the fill adds one to each byte of its state and writes the
  first byte of the old state plus the chunk number throughout each 64-byte chunk. The
  sample seeds are those of a batch of two lanes, 64 bytes of 10 and 64 bytes of 20, and
  the sample host memory is that of the harness for two lanes and regions of 128 bytes,
  with the seeds as the reference states.
\<close>

definition toy_primitives :: primitives where
  "toy_primitives =
     \<lparr>blake2b_fn = (\<lambda>w msg. replicate w (msg ! 39)),
      fillAes_fn = (\<lambda>state size.
        (map (\<lambda>b. b + 1) state, map (\<lambda>k. state ! 0 + of_nat (k div 64)) [0..<size])),
      hashAes_fn = (\<lambda>input. replicate 64 (input ! 0))\<rparr>"



text \<open>
  The primitives with the hash primitive above and the stand-ins for the other two,
  and the memory of one lane whose register file of 256 bytes is all zero.
\<close>

definition blake2b_primitives :: primitives where
  "blake2b_primitives = toy_primitives\<lparr>blake2b_fn := blake2b\<rparr>"

definition zero_registers_memory :: memory where
  "zero_registers_memory =
     \<lparr>hash = replicate 64 0, hash2 = replicate 64 0, scratchpads = [], programs = [],
      registers = replicate 256 0, registers2 = replicate 256 0,
      blockTemplate = blockTemplate_init\<rparr>"

subsection \<open>Reading the trace of the harness\<close>

fun is_stderr :: "event \<Rightarrow> bool" where
  "is_stderr (Stderr m) = True"
| "is_stderr _ = False"

fun is_free :: "event \<Rightarrow> bool" where
  "is_free (Free b) = True"
| "is_free _ = False"

definition ended :: "state \<times> memory + state \<times> memory \<Rightarrow> state" where
  "ended r = (case r of Inl s \<Rightarrow> fst s | Inr s \<Rightarrow> fst s)"

definition silent :: "event list \<Rightarrow> bool" where
  "silent evs \<longleftrightarrow> list_all (\<lambda>e. \<not> is_stderr e) evs"

text \<open>The events of the later state that the earlier one does not have.\<close>

definition added :: "state \<Rightarrow> state \<Rightarrow> event list" where
  "added s s' = drop (length (trace s)) (trace s')"

definition grows :: "state \<Rightarrow> state \<Rightarrow> bool" where
  "grows s s' \<longleftrightarrow> take (length (trace s)) (trace s') = trace s"

text \<open>
  A statement of the harness never reports an error and goes on: the events it adds are
  no error reports, except the last one when it returns.
\<close>

definition reports :: "test_stmt \<Rightarrow> bool" where
  "reports f \<longleftrightarrow>
     (\<forall>s. case f s of
        Inr s' \<Rightarrow> grows (fst s) (fst s') \<and> silent (added (fst s) (fst s'))
      | Inl s' \<Rightarrow> grows (fst s) (fst s') \<and> silent (butlast (added (fst s) (fst s'))))"

section \<open>Properties of the host program\<close>

subsection \<open>Blocks of statements\<close>

lemma final_simps [simp]: "final (Inl s) = s" "final (Inr s) = s"
  by (simp_all add: final_def)

lemma run_steps_append:
  "run_steps (fs @ gs) st = (case run_steps fs st of Inl a \<Rightarrow> Inl a | Inr s \<Rightarrow> run_steps gs s)"
  by (induction fs arbitrary: st) (auto split: sum.splits)

lemma appends_refl: "appends P st st"
  by (simp add: appends_def)

lemma appends_trans: "appends P a b \<Longrightarrow> appends P b c \<Longrightarrow> appends P a c"
  by (auto simp: appends_def)

lemma appends_nonce [simp]:
  "appends P a (b\<lparr>nonce := n\<rparr>) = appends P a b"
  "appends P (a\<lparr>nonce := n\<rparr>) b = appends P a b"
  by (simp_all add: appends_def)

lemma appends_destroy: "P (Free b) \<Longrightarrow> appends P st (destroy dev b st)"
  by (simp add: appends_def destroy_def runtime_call_def Let_def)

lemma appends_fold_destroy:
  "(\<And>b. P (Free b)) \<Longrightarrow> appends P st (fold (destroy dev) bs st)"
proof (induction bs arbitrary: st)
  case Nil
  show ?case by (simp add: appends_refl)
next
  case (Cons b bs)
  have "appends P st (destroy dev b st)"
    using Cons.prems by (rule appends_destroy)
  moreover have "appends P (destroy dev b st) (fold (destroy dev) bs (destroy dev b st))"
    using Cons.prems by (rule Cons.IH)
  ultimately show ?case
    by (simp add: appends_trans)
qed

lemma appends_release: "(\<And>b. P (Free b)) \<Longrightarrow> appends P st (release dev st)"
  unfolding release_def by (rule appends_fold_destroy)

lemma run_steps_appends:
  "\<forall>f \<in> set fs. stmt_appends P f \<Longrightarrow> appends P st (final (run_steps fs st))"
proof (induction fs arbitrary: st)
  case Nil
  show ?case by (simp add: appends_refl)
next
  case (Cons f fs)
  have f: "appends P st (final (f st))"
    using Cons.prems by (simp add: stmt_appends_def)
  show ?case
  proof (cases "f st")
    case (Inl a)
    with f show ?thesis by simp
  next
    case (Inr s)
    have "appends P s (final (run_steps fs s))"
      using Cons.prems by (intro Cons.IH) simp
    with f Inr show ?thesis
      by (auto intro: appends_trans)
  qed
qed

lemma stmt_appends_checked_launch:
  "(\<And>st. P (Launch k (as st))) \<Longrightarrow> P GetLastError \<Longrightarrow> P (Stderr m) \<Longrightarrow>
   stmt_appends P (\<lambda>st. checked_launch dev k (as st) m st)"
  by (simp add: stmt_appends_def checked_launch_def launch_def cudaGetLastError_def
      runtime_call_def fail_def fprintf_stderr_def appends_def Let_def)

lemma stmt_appends_checked_launch':
  "P (Launch k as) \<Longrightarrow> P GetLastError \<Longrightarrow> P (Stderr m) \<Longrightarrow>
   stmt_appends P (checked_launch dev k as m)"
  using stmt_appends_checked_launch [of P k "\<lambda>_. as" m dev] by simp

lemma stmt_appends_launch:
  "P (Launch k as) \<Longrightarrow> stmt_appends P (\<lambda>st. Inr (launch dev k as st))"
  by (simp add: stmt_appends_def launch_def runtime_call_def appends_def Let_def)

lemma stmt_appends_checked_call:
  "P e \<Longrightarrow> P (Stderr m) \<Longrightarrow> stmt_appends P (checked_call dev e m)"
  by (simp add: stmt_appends_def checked_call_def
      runtime_call_def fail_def fprintf_stderr_def appends_def Let_def)

lemma stmt_appends_allocate:
  "(\<And>st. P (Malloc b (n st))) \<Longrightarrow> P (Stderr m) \<Longrightarrow>
   stmt_appends P (\<lambda>st. allocate dev b (n st) m st)"
  by (simp add: stmt_appends_def allocate_def GPUPtr_def
      runtime_call_def fail_def fprintf_stderr_def appends_def Let_def)

lemma stmt_appends_allocate':
  "P (Malloc b n) \<Longrightarrow> P (Stderr m) \<Longrightarrow> stmt_appends P (allocate dev b n m)"
  using stmt_appends_allocate [of P b "\<lambda>_. n" m dev] by simp

lemma stmt_appends_query_memory: "stmt_appends in_prelude (query_memory dev)"
  by (simp add: stmt_appends_def query_memory_def GPUPtr_def destroy_def
      runtime_call_def fprintf_stderr_def appends_def Let_def in_prelude_def)

lemma stmt_appends_check_memory: "stmt_appends in_prelude (check_memory cfg)"
  by (simp add: stmt_appends_def check_memory_def fail_def fprintf_stderr_def appends_def
      in_prelude_def)

lemma stmt_appends_program_round:
  "f \<in> set (program_round cfg dev i) \<Longrightarrow> stmt_appends in_loop f"
  by (auto simp: program_round_def in_loop_def split: if_splits
      intro!: stmt_appends_checked_launch stmt_appends_checked_launch' stmt_appends_launch)

lemma stmt_appends_mining_batch:
  "f \<in> set (mining_batch cfg dev) \<Longrightarrow> stmt_appends in_loop f"
  by (auto simp: mining_batch_def in_loop_def stmt_appends_program_round
      intro!: stmt_appends_checked_launch stmt_appends_checked_call)

lemma appends_mining_loop: "appends in_loop st (snd (mining_loop fuel cfg dev st))"
proof (induction fuel arbitrary: st)
  case 0
  show ?case by (simp add: mining_loop.simps appends_refl)
next
  case (Suc fuel)
  have b: "appends in_loop st (final (run_steps (mining_batch cfg dev) st))"
    by (rule run_steps_appends) (simp add: stmt_appends_mining_batch)
  show ?case
  proof (cases "run_steps (mining_batch cfg dev) st")
    case (Inl a)
    with b show ?thesis
      by (simp add: mining_loop.simps [of "Suc fuel"] appends_refl)
  next
    case (Inr s)
    let ?s = "s\<lparr>nonce := ucast ((ucast (nonce s) :: 64 word) + batch_size s)\<rparr>"
    have "appends in_loop s (snd (mining_loop fuel cfg dev ?s))"
      using Suc.IH [of ?s] by simp
    with b Inr show ?thesis
      by (auto simp: mining_loop.simps [of "Suc fuel"] appends_refl intro: appends_trans)
  qed
qed

subsection \<open>The block template on the device\<close>

lemma template_reader_no_launch: "\<not> is_launch e \<Longrightarrow> template_reader e"
  by (cases e) simp_all

lemma prelude_split:
  "prelude cfg dev = butlast (butlast (prelude cfg dev))
     @ [checked_call dev (MemcpyToDevice BlockTemplate) ''Failed to copy block template to GPU'',
        query_memory_left dev]"
  by (simp add: prelude_def)

lemma prelude_front:
  "f \<in> set (butlast (butlast (prelude cfg dev))) \<Longrightarrow> stmt_appends in_prelude f"
  by (auto simp: prelude_def stmt_appends_query_memory stmt_appends_check_memory in_prelude_def
      intro!: stmt_appends_allocate stmt_appends_allocate' stmt_appends_checked_call)

lemma appends_prelude:
  "appends (\<lambda>e. \<not> is_launch e) st (final (run_steps (prelude cfg dev) st))"
  by (rule run_steps_appends)
    (auto simp: prelude_def in_prelude_def stmt_appends_def query_memory_def GPUPtr_def destroy_def
      runtime_call_def fprintf_stderr_def appends_def Let_def check_memory_def fail_def
      allocate_def checked_call_def query_memory_left_def)

lemma uploads_appends:
  "appends P st st' \<Longrightarrow> (\<And>e. P e \<Longrightarrow> \<not> host_write e) \<Longrightarrow>
   uploads (trace st') = uploads (trace st)"
  by (auto simp: appends_def uploads_def list_all_iff)

lemma uploads_prelude:
  "uploads (trace (final (run_steps (prelude cfg dev) st))) \<le> uploads (trace st) + 1"
proof -
  let ?A = "butlast (butlast (prelude cfg dev))"
  let ?B = "[checked_call dev (MemcpyToDevice BlockTemplate)
               ''Failed to copy block template to GPU'', query_memory_left dev]"
  have A: "appends in_prelude st (final (run_steps ?A st))"
    by (rule run_steps_appends) (simp add: prelude_front)
  then have uA: "uploads (trace (final (run_steps ?A st))) = uploads (trace st)"
    by (rule uploads_appends) (simp add: in_prelude_def)
  show ?thesis
  proof (cases "run_steps ?A st")
    case (Inl a)
    then have "run_steps (prelude cfg dev) st = Inl a"
      by (subst prelude_split) (simp add: run_steps_append)
    with uA Inl show ?thesis by simp
  next
    case (Inr s)
    then have r: "run_steps (prelude cfg dev) st = run_steps ?B s"
      by (subst prelude_split) (simp add: run_steps_append)
    have "uploads (trace (final (run_steps ?B s))) = uploads (trace s) + 1"
      by (simp add: checked_call_def runtime_call_def Let_def fail_def fprintf_stderr_def
          query_memory_left_def uploads_def)
    with uA Inr r show ?thesis by simp
  qed
qed

lemma test_mining_appends:
  "appends in_loop (final (run_steps (prelude cfg dev) initial_state))
     (snd (test_mining fuel cfg dev))"
proof (cases "run_steps (prelude cfg dev) initial_state")
  case (Inl a)
  then show ?thesis
    by (simp add: test_mining_def appends_release in_loop_def)
next
  case (Inr s)
  let ?l = "mining_loop fuel cfg dev (s\<lparr>nonce := 0\<rparr>)"
  have "appends in_loop s (snd ?l)"
    using appends_mining_loop [of "s\<lparr>nonce := 0\<rparr>" fuel cfg dev] by simp
  moreover have "appends in_loop (snd ?l) (release dev (snd ?l))"
    by (simp add: appends_release in_loop_def)
  ultimately show ?thesis
    using Inr
    by (auto simp: test_mining_def split: prod.splits outcome.splits intro: appends_trans)
qed

text \<open>
  C8, as amended. On every run of \<^verbatim>\<open>test_mining\<close>, whatever the device does and however
  many batches run, the host writes the device copy of the block template at most once:
  the upload of line 184, before the loop. From the first kernel launch on no host call
  writes it; the nonce window reaches the kernel as a launch argument. The only kernel
  that is handed the buffer is the initial hash.
\<close>

theorem template_uploaded_once:
  "uploads (trace (snd (test_mining fuel cfg dev))) \<le> 1
   \<and> uploads (dropWhile (\<lambda>e. \<not> is_launch e) (trace (snd (test_mining fuel cfg dev)))) = 0
   \<and> list_all template_reader (trace (snd (test_mining fuel cfg dev)))"
proof -
  define p where "p = final (run_steps (prelude cfg dev) initial_state)"
  let ?tr = "trace (snd (test_mining fuel cfg dev))"
  have t0: "trace initial_state = []"
    by (simp add: initial_state_def)
  from appends_prelude [of initial_state cfg dev]
  have pre: "list_all (\<lambda>e. \<not> is_launch e) (trace p)"
    by (simp add: appends_def t0 p_def)
  from uploads_prelude [of cfg dev initial_state]
  have up: "uploads (trace p) \<le> 1"
    by (simp add: t0 p_def uploads_def)
  from test_mining_appends [of cfg dev fuel]
  obtain post where post: "?tr = trace p @ post" "list_all in_loop post"
    by (auto simp: appends_def p_def)
  have nw: "filter host_write post = []"
    using post(2) by (auto simp: list_all_iff in_loop_def filter_empty_conv)
  have 1: "uploads ?tr \<le> 1"
    using up nw by (simp add: post(1) uploads_def)
  have "dropWhile (\<lambda>e. \<not> is_launch e) (trace p @ post) = dropWhile (\<lambda>e. \<not> is_launch e) post"
    using pre by (intro dropWhile_append2) (simp add: list_all_iff)
  moreover have "set (dropWhile (\<lambda>e. \<not> is_launch e) post) \<subseteq> set post"
    by (rule set_dropWhileD [THEN subsetI])
  ultimately have 2: "uploads (dropWhile (\<lambda>e. \<not> is_launch e) ?tr) = 0"
    using post(2) by (auto simp: post(1) uploads_def list_all_iff in_loop_def filter_empty_conv)
  have "list_all template_reader (trace p)"
    using pre by (auto simp: list_all_iff template_reader_no_launch)
  moreover have "list_all template_reader post"
    using post(2) by (auto simp: list_all_iff in_loop_def)
  ultimately have 3: "list_all template_reader ?tr"
    by (simp add: post(1))
  from 1 2 3 show ?thesis by blast
qed

theorem template_uploaded_once_witness:
  "uploads (trace (snd (test_mining 2 sample_config healthy_device))) \<le> 1
   \<and> Launch Blake2b_initial_hash [Buf Hashes, Buf BlockTemplate, Nonce 992]
        \<in> set (trace (snd (test_mining 2 sample_config healthy_device)))
   \<and> list_all template_reader (trace (snd (test_mining 2 sample_config healthy_device)))"
proof -
  have "Launch Blake2b_initial_hash [Buf Hashes, Buf BlockTemplate, Nonce 992]
        \<in> set (trace (snd (test_mining 2 sample_config healthy_device)))"
    by code_simp
  with template_uploaded_once [of 2 sample_config healthy_device] show ?thesis
    by simp
qed

text \<open>
  C8 as stated fails: in a run of two batches the host has written the template once,
  not once per batch, and the second batch starts without any write to it.
\<close>

theorem template_not_patched_per_batch:
  "count_list (kernels_of (trace (snd (test_mining 2 sample_config healthy_device))))
     Blake2b_initial_hash = 2
   \<and> uploads (trace (snd (test_mining 2 sample_config healthy_device))) = 1"
  by code_simp

subsection \<open>The kernels of one batch\<close>

lemma kernels_of_append: "kernels_of (xs @ ys) = kernels_of xs @ kernels_of ys"
  by (simp add: kernels_of_def)

lemma launches_run_steps:
  "list_all2 launches fs kss \<Longrightarrow> run_steps fs st = Inr st' \<Longrightarrow>
   \<exists>evs. trace st' = trace st @ evs \<and> kernels_of evs = concat kss"
proof (induction fs kss arbitrary: st rule: list_all2_induct)
  case Nil
  then show ?case by (simp add: kernels_of_def)
next
  case (Cons f fs ks kss)
  from Cons.prems obtain s where s: "f st = Inr s" and r: "run_steps fs s = Inr st'"
    by (auto split: sum.splits)
  from Cons.hyps(1) s obtain e1 where e1: "trace s = trace st @ e1" "kernels_of e1 = ks"
    by (auto simp: launches_def)
  from Cons.IH [OF r] obtain e2 where e2: "trace st' = trace s @ e2" "kernels_of e2 = concat kss"
    by auto
  from e1 e2 have "trace st' = trace st @ (e1 @ e2)" "kernels_of (e1 @ e2) = concat (ks # kss)"
    by (simp_all add: kernels_of_append)
  then show ?case by blast
qed

lemma launches_checked_launch: "launches (\<lambda>st. checked_launch dev k (as st) m st) [k]"
  by (auto simp: launches_def checked_launch_def launch_def cudaGetLastError_def
      runtime_call_def fail_def Let_def kernels_of_def split: if_splits)

lemma launches_checked_launch': "launches (checked_launch dev k as m) [k]"
  using launches_checked_launch [of dev k "\<lambda>_. as" m] by simp

lemma launches_launch: "launches (\<lambda>st. Inr (launch dev k as st)) [k]"
  by (auto simp: launches_def launch_def runtime_call_def Let_def kernels_of_def)

lemma launches_sync: "launches (checked_call dev DeviceSynchronize m) []"
  by (auto simp: launches_def checked_call_def runtime_call_def fail_def Let_def kernels_of_def
      split: if_splits)

lemma launches_program_round:
  "list_all2 launches (program_round cfg dev i)
     (map (\<lambda>k. [k]) (protocol_round (PROGRAM_COUNT cfg) i))"
  by (simp add: program_round_def protocol_round_def launches_checked_launch launches_launch
      launches_checked_launch')

lemma list_all2_concat_map:
  "(\<And>x. x \<in> set xs \<Longrightarrow> list_all2 P (f x) (g x)) \<Longrightarrow>
   list_all2 P (concat (map f xs)) (concat (map g xs))"
  by (induction xs) (auto intro: list_all2_appendI)

lemma concat_singletons: "concat (map (\<lambda>k. [k]) ks) = ks"
  by (induction ks) auto

lemma launches_mining_batch:
  "list_all2 launches (mining_batch cfg dev)
     (map (\<lambda>k. [k]) ([Blake2b_initial_hash, FillAes1Rx4 True]
        @ concat (map (protocol_round (PROGRAM_COUNT cfg)) [0..<PROGRAM_COUNT cfg])) @ [[]])"
  unfolding mining_batch_def
  apply (simp only: map_append append_assoc)
  apply (rule list_all2_appendI)
   apply (simp add: launches_checked_launch)
  apply (rule list_all2_appendI)
   apply (simp only: map_concat map_map o_def)
   apply (rule list_all2_concat_map)
   apply (simp add: launches_program_round)
  apply (simp add: launches_sync)
  done

lemma count_rounds:
  "count_list (concat (map (protocol_round n) [0..<m])) HashAes1Rx4 = (if n - 1 < m then 1 else 0)"
  by (induction m) (auto simp: protocol_round_def)

subsection \<open>A device that never fails\<close>

lemma quiet_trans: "quiet a b \<Longrightarrow> quiet b c \<Longrightarrow> quiet a c"
  by (simp add: quiet_def)

lemma run_steps_succeeds:
  "\<forall>f \<in> set fs. succeeds f \<Longrightarrow> \<not> last_error st \<Longrightarrow>
   \<exists>st'. run_steps fs st = Inr st' \<and> quiet st st'"
proof (induction fs arbitrary: st)
  case Nil
  then show ?case by (simp add: quiet_def)
next
  case (Cons f fs)
  from Cons.prems obtain s where s: "f st = Inr s" "quiet st s"
    by (auto simp: succeeds_def)
  then have "\<not> last_error s"
    by (simp add: quiet_def)
  with Cons.IH [of s] Cons.prems(1) obtain st' where "run_steps fs s = Inr st'" "quiet s st'"
    by auto
  with s show ?case
    by (auto intro: quiet_trans)
qed

lemma succeeds_checked_launch:
  "\<forall>n. ok dev n \<Longrightarrow> (\<And>st. concat (map arg_nonce (as st)) = []) \<Longrightarrow>
   succeeds (\<lambda>st. checked_launch dev k (as st) m st)"
  by (simp add: succeeds_def quiet_def checked_launch_def launch_def cudaGetLastError_def
      runtime_call_def Let_def nonces_of_def)

lemma succeeds_checked_launch':
  "\<forall>n. ok dev n \<Longrightarrow> concat (map arg_nonce as) = [] \<Longrightarrow> succeeds (checked_launch dev k as m)"
  using succeeds_checked_launch [of dev "\<lambda>_. as" k m] by simp

lemma succeeds_launch:
  "\<forall>n. ok dev n \<Longrightarrow> concat (map arg_nonce as) = [] \<Longrightarrow>
   succeeds (\<lambda>st. Inr (launch dev k as st))"
  by (simp add: succeeds_def quiet_def launch_def runtime_call_def Let_def nonces_of_def)

lemma succeeds_checked_call:
  "\<forall>n. ok dev n \<Longrightarrow> nonce_of e = [] \<Longrightarrow> succeeds (checked_call dev e m)"
  by (simp add: succeeds_def quiet_def checked_call_def runtime_call_def Let_def nonces_of_def)

lemma succeeds_program_round:
  "\<forall>n. ok dev n \<Longrightarrow> f \<in> set (program_round cfg dev i) \<Longrightarrow> succeeds f"
  by (auto simp: program_round_def succeeds_checked_launch succeeds_checked_launch' succeeds_launch
      split: if_splits)

lemma initial_hash_step:
  assumes "\<forall>n. ok dev n" "\<not> last_error st"
  shows "\<exists>s. checked_launch dev Blake2b_initial_hash
               [Buf Hashes, Buf BlockTemplate, Nonce (nonce st)] m st = Inr s
             \<and> \<not> last_error s \<and> nonce s = nonce st \<and> batch_size s = batch_size st
             \<and> nonces_of (trace s) = nonces_of (trace st) @ [nonce st]"
  using assms
  by (simp add: checked_launch_def launch_def cudaGetLastError_def
      runtime_call_def Let_def nonces_of_def)

lemma mining_batch_succeeds:
  assumes "\<forall>n. ok dev n" "\<not> last_error st"
  shows "\<exists>st'. run_steps (mining_batch cfg dev) st = Inr st'
             \<and> \<not> last_error st' \<and> nonce st' = nonce st \<and> batch_size st' = batch_size st
             \<and> nonces_of (trace st') = nonces_of (trace st) @ [nonce st]"
proof -
  from initial_hash_step [OF assms] obtain s where
    s: "checked_launch dev Blake2b_initial_hash
          [Buf Hashes, Buf BlockTemplate, Nonce (nonce st)]
          ''blake2b_initial_hash launch failed'' st = Inr s"
      "\<not> last_error s" "nonce s = nonce st" "batch_size s = batch_size st"
      "nonces_of (trace s) = nonces_of (trace st) @ [nonce st]"
    by blast
  let ?rest = "(\<lambda>st. checked_launch dev (FillAes1Rx4 True)
               [Buf Hashes, Buf Scratchpads, Batch (batch_size st)]
               ''fillAes1Rx4 launch failed'' st)
     # concat (map (program_round cfg dev) [0..<PROGRAM_COUNT cfg])
     @ [checked_call dev DeviceSynchronize ''cudaDeviceSynchronize returned error code'']"
  have "\<forall>f \<in> set ?rest. succeeds f"
    using assms(1)
    by (auto simp: succeeds_checked_launch succeeds_checked_call succeeds_program_round)
  from run_steps_succeeds [OF this s(2)] obtain st' where
    "run_steps ?rest s = Inr st'" "quiet s st'"
    by blast
  with s show ?thesis
    by (simp add: mining_batch_def quiet_def)
qed

text \<open>
  C3. Whenever a batch of \<^verbatim>\<open>test_mining\<close> runs to its end, the kernels it has launched
  are the initial hash, the scratchpad fill and then the \<^verbatim>\<open>PROGRAM_COUNT\<close> rounds of the
  protocol: the scratchpad is compressed into the registers on the last round only,
  after that round's register initialisation and before its fold, so exactly once per
  batch, and the fold is 64 bytes wide on every round but the last, where it is 32.
\<close>

theorem compress_once_per_hash:
  assumes "0 < PROGRAM_COUNT cfg"
    and "run_steps (mining_batch cfg dev) st = Inr st'"
  shows "kernels_of (drop (length (trace st)) (trace st')) =
           [Blake2b_initial_hash, FillAes1Rx4 True]
           @ concat (map (protocol_round (PROGRAM_COUNT cfg)) [0..<PROGRAM_COUNT cfg])
         \<and> count_list (kernels_of (drop (length (trace st)) (trace st'))) HashAes1Rx4 = 1"
proof -
  from launches_run_steps [OF launches_mining_batch assms(2)]
  obtain evs where evs: "trace st' = trace st @ evs"
    "kernels_of evs = [Blake2b_initial_hash, FillAes1Rx4 True]
       @ concat (map (protocol_round (PROGRAM_COUNT cfg)) [0..<PROGRAM_COUNT cfg])"
    by (auto simp: concat_singletons simp del: map_append)
  have "count_list (kernels_of evs) HashAes1Rx4 = 1"
    using assms(1) by (simp add: evs(2) count_rounds)
  with evs show ?thesis by simp
qed

theorem compress_once_per_hash_witness:
  "0 < PROGRAM_COUNT sample_config
   \<and> (\<exists>st'. run_steps (mining_batch sample_config healthy_device) initial_state = Inr st'
        \<and> kernels_of (trace st') =
            [Blake2b_initial_hash, FillAes1Rx4 True,
             FillAes1Rx4 False, InitGroupA_registers, Blake2b_hash_registers 64,
             FillAes1Rx4 False, InitGroupA_registers, Blake2b_hash_registers 64,
             FillAes1Rx4 False, InitGroupA_registers, Blake2b_hash_registers 64,
             FillAes1Rx4 False, InitGroupA_registers, Blake2b_hash_registers 64,
             FillAes1Rx4 False, InitGroupA_registers, Blake2b_hash_registers 64,
             FillAes1Rx4 False, InitGroupA_registers, Blake2b_hash_registers 64,
             FillAes1Rx4 False, InitGroupA_registers, Blake2b_hash_registers 64,
             FillAes1Rx4 False, InitGroupA_registers, HashAes1Rx4, Blake2b_hash_registers 32]
        \<and> count_list (kernels_of (trace st')) HashAes1Rx4 = 1)"
proof -
  have p: "0 < PROGRAM_COUNT sample_config"
    by (simp add: sample_config_def)
  have "\<forall>n. ok healthy_device n" "\<not> last_error initial_state"
    by (simp_all add: healthy_device_def initial_state_def)
  from mining_batch_succeeds [OF this] obtain st' where
    r: "run_steps (mining_batch sample_config healthy_device) initial_state = Inr st'"
    by blast
  have k: "concat (map (protocol_round (PROGRAM_COUNT sample_config))
                [0..<PROGRAM_COUNT sample_config]) =
            [FillAes1Rx4 False, InitGroupA_registers, Blake2b_hash_registers 64,
             FillAes1Rx4 False, InitGroupA_registers, Blake2b_hash_registers 64,
             FillAes1Rx4 False, InitGroupA_registers, Blake2b_hash_registers 64,
             FillAes1Rx4 False, InitGroupA_registers, Blake2b_hash_registers 64,
             FillAes1Rx4 False, InitGroupA_registers, Blake2b_hash_registers 64,
             FillAes1Rx4 False, InitGroupA_registers, Blake2b_hash_registers 64,
             FillAes1Rx4 False, InitGroupA_registers, Blake2b_hash_registers 64,
             FillAes1Rx4 False, InitGroupA_registers, HashAes1Rx4, Blake2b_hash_registers 32]"
    by code_simp
  have "trace initial_state = []"
    by (simp add: initial_state_def)
  with compress_once_per_hash [OF p r] p r show ?thesis
    by (simp add: k)
qed

subsection \<open>The nonce window\<close>

lemma unat_ucast_32: "unat (ucast (L :: 64 word) :: 32 word) = unat L mod 2 ^ 32"
  by (simp add: unsigned_ucast_eq take_bit_eq_mod)

lemma unat_ucast_64: "unat (ucast (n :: 32 word) :: 64 word) = unat n"
proof -
  have "unat n < 2 ^ 32"
    using unsigned_less [of n] by simp
  then have "unat n < 2 ^ 64"
    by simp
  then show ?thesis
    by (simp add: unsigned_ucast_eq take_bit_eq_mod)
qed

lemma nonce_advance:
  "ucast ((ucast (n :: 32 word) :: 64 word) + L) = n + (ucast L :: 32 word)"
proof -
  have "(unat n + unat L) mod 2 ^ 64 mod 2 ^ 32 = (unat n + unat L) mod (2 ^ 32 :: nat)"
    by (rule mod_mod_cancel) simp
  then show ?thesis
    by (simp add: word_unat_eq_iff unat_ucast_32 unat_ucast_64 unat_word_ariths mod_add_right_eq)
qed

lemma dvd_ucast_32: "32 dvd unat (L :: 64 word) \<Longrightarrow> 32 dvd unat (ucast L :: 32 word)"
  by (simp add: unat_ucast_32 dvd_mod_iff)

lemma dvd_add_32: "32 dvd unat (n :: 32 word) \<Longrightarrow> 32 dvd unat m \<Longrightarrow> 32 dvd unat (n + m)"
  by (simp add: unat_word_ariths dvd_mod_iff)

lemma guard_holds: "32 dvd unat (n :: 32 word) \<Longrightarrow> n < 0xFFFFFFFF"
proof -
  assume d: "32 dvd unat n"
  have "unat n < 4294967296"
    using unsigned_less [of n] by simp
  with d have "unat n < 4294967295"
    by presburger
  then show ?thesis
    by (simp add: word_less_nat_alt)
qed

lemma upt_0_Suc: "[0..<Suc n] = 0 # map Suc [0..<n]"
  by (simp add: upt_conv_Cons map_Suc_upt del: upt_Suc)

lemma mining_loop_runs:
  assumes dev: "\<forall>n. ok dev n" and L: "32 dvd unat L"
  shows "\<not> last_error st \<Longrightarrow> batch_size st = L \<Longrightarrow> 32 dvd unat (nonce st) \<Longrightarrow>
     \<exists>st'. mining_loop fuel cfg dev st = (Running, st')
       \<and> nonce st' = nonce st + of_nat fuel * ucast L
       \<and> nonces_of (trace st') =
           nonces_of (trace st) @ map (\<lambda>j. nonce st + of_nat j * ucast L) [0..<fuel]"
proof (induction fuel arbitrary: st)
  case 0
  then show ?case
    by (simp add: mining_loop.simps guard_holds)
next
  case (Suc fuel)
  from mining_batch_succeeds [OF dev Suc.prems(1)] obtain s where
    s: "run_steps (mining_batch cfg dev) st = Inr s" "\<not> last_error s" "nonce s = nonce st"
      "batch_size s = batch_size st"
      "nonces_of (trace s) = nonces_of (trace st) @ [nonce st]"
    by blast
  let ?s = "s\<lparr>nonce := ucast ((ucast (nonce s) :: 64 word) + batch_size s)\<rparr>"
  have n: "nonce ?s = nonce st + ucast L"
    using s Suc.prems by (simp add: nonce_advance)
  have "32 dvd unat (nonce ?s)"
    unfolding n using Suc.prems(3) L by (intro dvd_add_32 dvd_ucast_32)
  moreover have "\<not> last_error ?s" "batch_size ?s = L"
    using s Suc.prems by simp_all
  ultimately obtain st' where
    st': "mining_loop fuel cfg dev ?s = (Running, st')"
      "nonce st' = nonce ?s + of_nat fuel * ucast L"
      "nonces_of (trace st') =
           nonces_of (trace ?s) @ map (\<lambda>j. nonce ?s + of_nat j * ucast L) [0..<fuel]"
    using Suc.IH [of ?s] by blast
  have "mining_loop (Suc fuel) cfg dev st = (Running, st')"
    using s(1) st'(1) Suc.prems(3) by (simp add: mining_loop.simps [of "Suc fuel"] guard_holds)
  moreover have "nonce st' = nonce st + of_nat (Suc fuel) * ucast L"
    unfolding st'(2) n by (simp add: algebra_simps)
  moreover have "nonces_of (trace st') =
           nonces_of (trace st) @ map (\<lambda>j. nonce st + of_nat j * ucast L) [0..<Suc fuel]"
    unfolding st'(3) n upt_0_Suc using s(5)
    by (simp add: algebra_simps comp_def)
  ultimately show ?case by blast
qed

lemma prelude_succeeds:
  assumes dev: "\<forall>n. ok dev n" and mem: "\<not> not_enough_memory cfg (reported_free dev 1)"
  shows "\<exists>st. run_steps (prelude cfg dev) initial_state = Inr st
           \<and> \<not> last_error st
           \<and> batch_size st = plan_batch_size cfg (reported_free dev 1)
           \<and> nonces_of (trace st) = []"
  using assms
  by (simp add: prelude_def initial_state_def query_memory_def GPUPtr_def runtime_call_def
      destroy_def check_memory_def allocate_def checked_call_def query_memory_left_def
      nonces_of_def Let_def)

lemma plan_multiple_of_32: "32 dvd unat (plan_batch_size cfg free)"
proof -
  define q where "q = (free - DATASET_SIZE cfg - push_bit 20 64) div SCRATCHPAD_SIZE cfg div 32"
  have "unat q * 32 \<le> unat ((free - DATASET_SIZE cfg - push_bit 20 64) div SCRATCHPAD_SIZE cfg)"
    unfolding q_def by (simp add: unat_div)
  also have "\<dots> < 2 ^ 64"
    using unsigned_less [of "(free - DATASET_SIZE cfg - push_bit 20 64) div SCRATCHPAD_SIZE cfg"]
    by simp
  finally have "unat (q * 32) = unat q * 32"
    by (simp add: unat_word_ariths)
  then show ?thesis
    unfolding plan_batch_size_def q_def [symmetric] by simp
qed

text \<open>
  C9. On a device that never fails, the loop over the nonces entered with \<^verbatim>\<open>nonce = 0\<close>
  and a batch size that is a multiple of 32 is still running after any number of
  batches: after \<open>fuel\<close> batches the counter is \<open>fuel\<close> times the batch size in 32-bit
  arithmetic, the initial hash has been launched with the nonces \<open>0, L, 2L, \<dots>\<close>, and the
  guard against \<^verbatim>\<open>0xFFFFFFFF\<close> has never been false. The same holds of \<^verbatim>\<open>test_mining\<close> as
  a whole, with the batch size it plans, once the reported memory passes its check.
\<close>

theorem nonce_windows_never_end:
  assumes "\<forall>n. ok dev n"
  shows "(\<not> last_error st \<and> 32 dvd unat (batch_size st) \<longrightarrow>
            fst (mining_loop fuel cfg dev (st\<lparr>nonce := 0\<rparr>)) = Running
          \<and> nonce (snd (mining_loop fuel cfg dev (st\<lparr>nonce := 0\<rparr>)))
              = of_nat fuel * ucast (batch_size st)
          \<and> nonces_of (drop (length (trace st))
                (trace (snd (mining_loop fuel cfg dev (st\<lparr>nonce := 0\<rparr>)))))
              = map (\<lambda>j. of_nat j * ucast (batch_size st)) [0..<fuel])
       \<and> (\<not> not_enough_memory cfg (reported_free dev 1) \<longrightarrow>
            fst (test_mining fuel cfg dev) = Running
          \<and> nonces_of (trace (snd (test_mining fuel cfg dev)))
              = map (\<lambda>j. of_nat j * ucast (plan_batch_size cfg (reported_free dev 1))) [0..<fuel])"
proof (intro conjI impI)
  assume a: "\<not> last_error st \<and> 32 dvd unat (batch_size st)"
  let ?s = "st\<lparr>nonce := 0\<rparr>"
  have "\<not> last_error ?s" "batch_size ?s = batch_size st" "32 dvd unat (nonce ?s)"
    using a by simp_all
  from mining_loop_runs [OF assms _ this] a
  obtain st' where st': "mining_loop fuel cfg dev ?s = (Running, st')"
    "nonce st' = of_nat fuel * ucast (batch_size st)"
    "nonces_of (trace st') =
       nonces_of (trace st) @ map (\<lambda>j. of_nat j * ucast (batch_size st)) [0..<fuel]"
    by auto
  from appends_mining_loop [of ?s fuel cfg dev] st'(1)
  obtain evs where evs: "trace st' = trace st @ evs"
    by (auto simp: appends_def)
  with st'(3) have "nonces_of evs = map (\<lambda>j. of_nat j * ucast (batch_size st)) [0..<fuel]"
    by (simp add: nonces_of_def)
  with st' evs show "fst (mining_loop fuel cfg dev ?s) = Running"
    "nonce (snd (mining_loop fuel cfg dev ?s)) = of_nat fuel * ucast (batch_size st)"
    "nonces_of (drop (length (trace st)) (trace (snd (mining_loop fuel cfg dev ?s))))
       = map (\<lambda>j. of_nat j * ucast (batch_size st)) [0..<fuel]"
    by simp_all
next
  assume m: "\<not> not_enough_memory cfg (reported_free dev 1)"
  let ?L = "plan_batch_size cfg (reported_free dev 1)"
  from prelude_succeeds [OF assms m] obtain s where
    s: "run_steps (prelude cfg dev) initial_state = Inr s" "\<not> last_error s"
      "batch_size s = ?L" "nonces_of (trace s) = []"
    by blast
  let ?s = "s\<lparr>nonce := 0\<rparr>"
  have "\<not> last_error ?s" "batch_size ?s = ?L" "32 dvd unat (nonce ?s)"
    using s by simp_all
  from mining_loop_runs [OF assms plan_multiple_of_32 this]
  obtain st' where st': "mining_loop fuel cfg dev ?s = (Running, st')"
    "nonces_of (trace st') = nonces_of (trace ?s) @ map (\<lambda>j. nonce ?s + of_nat j * ucast ?L) [0..<fuel]"
    by blast
  from s st' show "fst (test_mining fuel cfg dev) = Running"
    "nonces_of (trace (snd (test_mining fuel cfg dev))) = map (\<lambda>j. of_nat j * ucast ?L) [0..<fuel]"
    by (simp_all add: test_mining_def)
qed

theorem nonce_windows_never_end_witness:
  "(\<forall>n. ok healthy_device n)
   \<and> \<not> last_error (initial_state\<lparr>batch_size := 64\<rparr>)
   \<and> 32 dvd unat (batch_size (initial_state\<lparr>batch_size := 64\<rparr>))
   \<and> fst (mining_loop 3 sample_config healthy_device (initial_state\<lparr>batch_size := 64, nonce := 0\<rparr>))
       = Running
   \<and> nonces_of (trace (snd (mining_loop 3 sample_config healthy_device
        (initial_state\<lparr>batch_size := 64, nonce := 0\<rparr>)))) = [0, 64, 128]
   \<and> \<not> not_enough_memory sample_config (reported_free healthy_device 1)
   \<and> fst (test_mining 3 sample_config healthy_device) = Running
   \<and> nonces_of (trace (snd (test_mining 3 sample_config healthy_device))) = [0, 992, 1984]"
proof -
  have d: "\<forall>n. ok healthy_device n"
    by (simp add: healthy_device_def)
  have m: "\<not> not_enough_memory sample_config (reported_free healthy_device 1)"
    by (simp add: not_enough_memory_def sample_config_def healthy_device_def)
  have p: "plan_batch_size sample_config (reported_free healthy_device (Suc 0)) = 992"
    by (simp add: plan_batch_size_def sample_config_def healthy_device_def)
  have u: "[0..<3] = [0, 1, 2]"
    by (simp add: upt_rec)
  from nonce_windows_never_end [OF d, of "initial_state\<lparr>batch_size := 64\<rparr>" 3 sample_config] d m
  show ?thesis
    by (simp add: initial_state_def p u)
qed

subsection \<open>The batch size\<close>

lemma headroom: "(push_bit 20 64 :: 64 word) = 67108864"
  by simp

lemma not_enough_memory_nat:
  assumes "unat (DATASET_SIZE cfg) + 32 * unat (SCRATCHPAD_SIZE cfg) + 67108864 < 2 ^ 64"
  shows "not_enough_memory cfg free \<longleftrightarrow>
         unat free \<le> unat (DATASET_SIZE cfg) + 32 * unat (SCRATCHPAD_SIZE cfg) + 67108864"
proof -
  have m: "unat (32 * SCRATCHPAD_SIZE cfg) = 32 * unat (SCRATCHPAD_SIZE cfg)"
    using assms by (simp add: unat_word_ariths)
  have a: "unat (DATASET_SIZE cfg + 32 * SCRATCHPAD_SIZE cfg)
             = unat (DATASET_SIZE cfg) + 32 * unat (SCRATCHPAD_SIZE cfg)"
    using assms m by (simp add: unat_word_ariths)
  have b: "unat (DATASET_SIZE cfg + 32 * SCRATCHPAD_SIZE cfg + 67108864)
             = unat (DATASET_SIZE cfg) + 32 * unat (SCRATCHPAD_SIZE cfg) + 67108864"
    using assms a by (simp add: unat_word_ariths)
  show ?thesis
    unfolding not_enough_memory_def headroom word_le_nat_alt b ..
qed

lemma plan_batch_size_nat:
  assumes "unat (DATASET_SIZE cfg) + 67108864 \<le> unat free"
  shows "unat (plan_batch_size cfg free)
           = (unat free - unat (DATASET_SIZE cfg) - 67108864)
               div unat (SCRATCHPAD_SIZE cfg) div 32 * 32"
proof -
  have le1: "DATASET_SIZE cfg \<le> free"
    using assms by (simp add: word_le_nat_alt)
  have s1: "unat (free - DATASET_SIZE cfg) = unat free - unat (DATASET_SIZE cfg)"
    using le1 by (simp add: unat_sub)
  have le2: "(67108864 :: 64 word) \<le> free - DATASET_SIZE cfg"
    using assms s1 by (simp add: word_le_nat_alt)
  have s2: "unat (free - DATASET_SIZE cfg - 67108864)
              = unat free - unat (DATASET_SIZE cfg) - 67108864"
    using le2 s1 by (simp add: unat_sub)
  define q where "q = (free - DATASET_SIZE cfg - 67108864) div SCRATCHPAD_SIZE cfg div 32"
  have uq: "unat q = (unat free - unat (DATASET_SIZE cfg) - 67108864)
                       div unat (SCRATCHPAD_SIZE cfg) div 32"
    unfolding q_def by (simp add: unat_div s2)
  have "unat q * 32 \<le> unat ((free - DATASET_SIZE cfg - 67108864) div SCRATCHPAD_SIZE cfg)"
    unfolding q_def by (simp add: unat_div)
  also have "\<dots> < 2 ^ 64"
    using unsigned_less [of "(free - DATASET_SIZE cfg - 67108864) div SCRATCHPAD_SIZE cfg"]
    by simp
  finally have "unat (q * 32) = unat q * 32"
    by (simp add: unat_word_ariths)
  then show ?thesis
    unfolding plan_batch_size_def headroom q_def [symmetric] uq .
qed

lemma planned_batch_positive:
  fixes f d s :: nat
  assumes "0 < s" and "d + 32 * s + 67108864 < f"
  shows "0 < (f - d - 67108864) div s div 32 * 32"
proof -
  have "32 * s \<le> f - d - 67108864"
    using assms(2) by simp
  then have "32 * s div s \<le> (f - d - 67108864) div s"
    by (rule div_le_mono)
  then have "32 \<le> (f - d - 67108864) div s"
    using assms(1) by simp
  then have "32 div 32 \<le> (f - d - 67108864) div s div 32"
    by (rule div_le_mono)
  then show ?thesis
    by simp
qed

lemma query_memory_ok:
  "ok dev (Suc (calls st)) \<Longrightarrow> Tmp \<notin> set (live st) \<Longrightarrow>
   query_memory dev st =
     Inr (st\<lparr>calls := calls st + (if ok dev (calls st) then 3 else 2),
             last_error := (last_error st \<or> \<not> ok dev (calls st)
                \<or> (ok dev (calls st) \<and> \<not> ok dev (Suc (Suc (calls st))))),
             free_mem := reported_free dev (Suc (calls st)),
             trace := trace st @ [Malloc Tmp 256, MemGetInfo]
                @ (if ok dev (calls st) then [Free Tmp] else [])\<rparr>)"
  by (simp add: query_memory_def GPUPtr_def runtime_call_def Let_def destroy_def)

lemma test_mining_not_enough:
  assumes "ok dev 1" and "not_enough_memory cfg (reported_free dev 1)"
  shows "fst (test_mining fuel cfg dev) = Returned False"
    and "trace (snd (test_mining fuel cfg dev)) =
           [Malloc Tmp 256, MemGetInfo] @ (if ok dev 0 then [Free Tmp] else [])
            @ [Stderr ''Not enough free GPU memory!'']"
  using assms
  by (simp_all add: test_mining_def prelude_def query_memory_ok initial_state_def
      check_memory_def fail_def fprintf_stderr_def release_def)

text \<open>
  C5, as amended. The batch size is a function of the free memory that the first query
  reports. Provided the scratchpad size is not zero and the threshold does not overflow
  \<^verbatim>\<open>size_t\<close>: the check of line 121 fails exactly when the free memory is at most the
  dataset plus 32 scratchpads plus 64 MiB; when it passes, the batch size is
  \<open>(free - dataset - 64 MiB) div scratchpad div 32 * 32\<close>, a positive multiple of 32; when
  it fails, \<^verbatim>\<open>test_mining\<close> returns false after printing the error, and none of the run's
  buffers has been requested: the only allocation in the trace is the 256-byte temporary
  made for the memory query, released before the check.
\<close>

theorem batch_sizing:
  assumes "unat (DATASET_SIZE cfg) + 32 * unat (SCRATCHPAD_SIZE cfg) + 67108864 < 2 ^ 64"
    and "SCRATCHPAD_SIZE cfg \<noteq> 0"
    and "ok dev 1" and "reported_free dev 1 = free"
  shows "(not_enough_memory cfg free \<longleftrightarrow>
            unat free \<le> unat (DATASET_SIZE cfg) + 32 * unat (SCRATCHPAD_SIZE cfg) + 67108864)
       \<and> (\<not> not_enough_memory cfg free \<longrightarrow>
            check_memory cfg (st\<lparr>free_mem := free\<rparr>)
              = Inr (st\<lparr>free_mem := free, batch_size := plan_batch_size cfg free\<rparr>)
          \<and> unat (plan_batch_size cfg free)
              = (unat free - unat (DATASET_SIZE cfg) - 67108864)
                  div unat (SCRATCHPAD_SIZE cfg) div 32 * 32
          \<and> 32 dvd unat (plan_batch_size cfg free)
          \<and> 0 < unat (plan_batch_size cfg free))
       \<and> (not_enough_memory cfg free \<longrightarrow>
            fst (test_mining fuel cfg dev) = Returned False
          \<and> trace (snd (test_mining fuel cfg dev)) =
              [Malloc Tmp 256, MemGetInfo] @ (if ok dev 0 then [Free Tmp] else [])
              @ [Stderr ''Not enough free GPU memory!'']
          \<and> filter is_malloc (trace (snd (test_mining fuel cfg dev))) = [Malloc Tmp 256])"
proof (intro conjI impI)
  show g: "not_enough_memory cfg free \<longleftrightarrow>
      unat free \<le> unat (DATASET_SIZE cfg) + 32 * unat (SCRATCHPAD_SIZE cfg) + 67108864"
    using assms(1) by (rule not_enough_memory_nat)
  {
    assume e: "\<not> not_enough_memory cfg free"
    then have lt: "unat (DATASET_SIZE cfg) + 32 * unat (SCRATCHPAD_SIZE cfg) + 67108864 < unat free"
      using g by simp
    then have "unat (DATASET_SIZE cfg) + 67108864 \<le> unat free"
      by simp
    then show u: "unat (plan_batch_size cfg free)
              = (unat free - unat (DATASET_SIZE cfg) - 67108864)
                  div unat (SCRATCHPAD_SIZE cfg) div 32 * 32"
      by (rule plan_batch_size_nat)
    show "32 dvd unat (plan_batch_size cfg free)"
      unfolding u by simp
    have "0 < unat (SCRATCHPAD_SIZE cfg)"
      using assms(2) by (simp add: unat_gt_0)
    then show "0 < unat (plan_batch_size cfg free)"
      unfolding u using lt by (rule planned_batch_positive)
    show "check_memory cfg (st\<lparr>free_mem := free\<rparr>)
              = Inr (st\<lparr>free_mem := free, batch_size := plan_batch_size cfg free\<rparr>)"
      using e by (simp add: check_memory_def)
  }
  {
    assume n: "not_enough_memory cfg free"
    then have n': "not_enough_memory cfg (reported_free dev 1)"
      using assms(4) by simp
    show "fst (test_mining fuel cfg dev) = Returned False"
      using assms(3) n' by (rule test_mining_not_enough)
    show t: "trace (snd (test_mining fuel cfg dev)) =
              [Malloc Tmp 256, MemGetInfo] @ (if ok dev 0 then [Free Tmp] else [])
              @ [Stderr ''Not enough free GPU memory!'']"
      using assms(3) n' by (rule test_mining_not_enough)
    show "filter is_malloc (trace (snd (test_mining fuel cfg dev))) = [Malloc Tmp 256]"
      unfolding t by simp
  }
qed

theorem batch_sizing_witness:
  "unat (DATASET_SIZE sample_config) + 32 * unat (SCRATCHPAD_SIZE sample_config) + 67108864 < 2 ^ 64
   \<and> SCRATCHPAD_SIZE sample_config \<noteq> 0
   \<and> ok healthy_device 1 \<and> reported_free healthy_device 1 = 4294967296
   \<and> \<not> not_enough_memory sample_config 4294967296
   \<and> unat (plan_batch_size sample_config 4294967296) = 992
   \<and> ok full_device 1 \<and> reported_free full_device 1 = 0
   \<and> not_enough_memory sample_config 0
   \<and> fst (test_mining 1 sample_config full_device) = Returned False"
proof -
  have c: "unat (DATASET_SIZE sample_config) + 32 * unat (SCRATCHPAD_SIZE sample_config)
             + 67108864 < 2 ^ 64"
    "SCRATCHPAD_SIZE sample_config \<noteq> 0"
    by (simp_all add: sample_config_def)
  have h: "ok healthy_device 1" "reported_free healthy_device 1 = 4294967296"
    by (simp_all add: healthy_device_def)
  have f: "ok full_device 1" "reported_free full_device 1 = 0"
    by (simp_all add: full_device_def)
  have e: "\<not> not_enough_memory sample_config 4294967296" "not_enough_memory sample_config 0"
    by (simp_all add: not_enough_memory_def sample_config_def)
  have v: "(4294967296 - 2147483648 - 67108864) div 2097152 div 32 * 32 = (992 :: nat)"
    by simp
  from batch_sizing [OF c h, of initial_state 1] batch_sizing [OF c f, of initial_state 1] c h f e
  show ?thesis
    by (simp add: sample_config_def v)
qed

text \<open>
  C5 as stated fails in its last part: when the memory is short, the run has already
  attempted an allocation, the temporary of line 108, before it fails.
\<close>

theorem allocation_precedes_memory_check:
  "not_enough_memory sample_config (reported_free full_device 1)
   \<and> test_mining 1 sample_config full_device =
       (Returned False,
        \<lparr>calls = 3, last_error = False, live = [], free_mem = 0, batch_size = 0, nonce = 0,
         trace = [Malloc Tmp 256, MemGetInfo, Free Tmp, Stderr ''Not enough free GPU memory!'']\<rparr>)
   \<and> is_malloc (hd (trace (snd (test_mining 1 sample_config full_device))))"
  by code_simp

subsection \<open>The launch that is not checked\<close>

text \<open>
  C6 fails on line 237. On a device where the first launch of \<^verbatim>\<open>initGroupA_registers\<close>
  fails and every other call succeeds, the host launches \<^verbatim>\<open>blake2b_hash_registers\<close> on top
  of the failed launch with no check in between; the failure surfaces one launch late,
  under the name of the wrong kernel. Every other launch of \<^verbatim>\<open>test_mining\<close> is followed by
  \<^verbatim>\<open>cudaGetLastError\<close>.
\<close>

theorem initGroupA_launch_unchecked:
  "fst (test_mining 1 sample_config faulty_device) = Returned False
   \<and> drop 16 (trace (snd (test_mining 1 sample_config faulty_device))) =
       [Launch (FillAes1Rx4 False) [Buf Hashes, Buf Programs, Batch 992],
        GetLastError,
        Launch InitGroupA_registers [Buf Programs, Buf Registers],
        Launch (Blake2b_hash_registers 64) [Buf Hashes, Buf Registers],
        GetLastError,
        Stderr ''blake2b_hash_registers launch failed'',
        Free BlockTemplate, Free Registers, Free Programs, Free Hashes, Free Scratchpads,
        Free Dataset]"
  by code_simp

section \<open>Properties of the harness\<close>

subsection \<open>Error reports end the harness\<close>

lemma ended_simps [simp]: "ended (Inl s) = fst s" "ended (Inr s) = fst s"
  by (simp_all add: ended_def)

lemma silent_simps [simp]: "silent []" "silent (xs @ ys) \<longleftrightarrow> silent xs \<and> silent ys"
  "silent (e # es) \<longleftrightarrow> \<not> is_stderr e \<and> silent es"
  by (simp_all add: silent_def)

lemma grows_added: "grows s s' \<Longrightarrow> trace s' = trace s @ added s s'"
  unfolding grows_def added_def by (metis append_take_drop_id)

lemma grows_trans: "grows a b \<Longrightarrow> grows b c \<Longrightarrow> grows a c"
  by (metis grows_added grows_def append_assoc append_eq_conv_conj)

lemma added_trans: "grows a b \<Longrightarrow> grows b c \<Longrightarrow> added a c = added a b @ added b c"
  by (metis grows_added added_def append_assoc append_eq_conv_conj)

lemma silent_butlast: "silent xs \<Longrightarrow> silent (butlast xs)"
  by (induction xs) auto

lemma reports_run_steps:
  "\<forall>f \<in> set fs. reports f \<Longrightarrow>
   (case run_steps fs s of
        Inr s' \<Rightarrow> grows (fst s) (fst s') \<and> silent (added (fst s) (fst s'))
      | Inl s' \<Rightarrow> grows (fst s) (fst s') \<and> silent (butlast (added (fst s) (fst s'))))"
proof (induction fs arbitrary: s)
  case Nil
  show ?case by (simp add: grows_def added_def)
next
  case (Cons f fs)
  have f: "reports f" and fs: "\<forall>g \<in> set fs. reports g"
    using Cons.prems by simp_all
  show ?case
  proof (cases "f s")
    case (Inl a)
    with f [unfolded reports_def, rule_format, of s] show ?thesis
      by simp
  next
    case (Inr b)
    with f [unfolded reports_def, rule_format, of s]
    have b: "grows (fst s) (fst b)" "silent (added (fst s) (fst b))"
      by simp_all
    show ?thesis
    proof (cases "run_steps fs b")
      case (Inl a)
      with Cons.IH [OF fs, of b]
      have a: "grows (fst b) (fst a)" "silent (butlast (added (fst b) (fst a)))"
        by simp_all
      have "silent (butlast (added (fst s) (fst b) @ added (fst b) (fst a)))"
        using a(2) b(2) by (simp add: butlast_append silent_butlast)
      with a b show ?thesis
        using Inr Inl by (simp add: added_trans grows_trans [of "fst s" "fst b"])
    next
      case (Inr c)
      with Cons.IH [OF fs, of b]
      have "grows (fst b) (fst c)" "silent (added (fst b) (fst c))"
        by simp_all
      with b show ?thesis
        using \<open>f s = Inr b\<close> Inr by (simp add: added_trans grows_trans [of "fst s" "fst b"])
    qed
  qed
qed

lemma reports_allocate: "reports (on_device (allocate dev b n m))"
  by (simp add: reports_def grows_def added_def on_device_def allocate_def GPUPtr_def runtime_call_def Let_def
      fail_def fprintf_stderr_def)

lemma reports_allocate_silent:
  "reports (on_device (\<lambda>st. case GPUPtr dev b n st of (r, st') \<Rightarrow> if r then Inr st' else Inl st'))"
  by (simp add: reports_def grows_def added_def on_device_def GPUPtr_def runtime_call_def Let_def)

lemma reports_checked_call: "\<not> is_stderr e \<Longrightarrow> reports (on_device (checked_call dev e m))"
  by (simp add: reports_def grows_def added_def on_device_def checked_call_def runtime_call_def Let_def
      fail_def fprintf_stderr_def)

lemma reports_launch: "reports (on_device (\<lambda>st. Inr (launch dev k as st)))"
  by (simp add: reports_def grows_def added_def on_device_def launch_def runtime_call_def Let_def)

lemma reports_checked_launch: "reports (on_device (checked_launch dev k as m))"
  by (simp add: reports_def grows_def added_def on_device_def checked_launch_def launch_def cudaGetLastError_def
      runtime_call_def Let_def fail_def fprintf_stderr_def)

lemma reports_on_host: "reports (on_host g)"
  by (simp add: reports_def grows_def added_def on_host_def)

lemma reports_printf: "reports (printf m)"
  by (simp add: reports_def grows_def added_def printf_def)

lemma reports_require: "reports (require c m)"
  by (simp add: reports_def grows_def added_def require_def fprintf_stderr_def)

lemma reports_memcpy: "reports (memcpy_to_host dev b len put)"
  by (simp add: reports_def grows_def added_def memcpy_to_host_def runtime_call_def Let_def fprintf_stderr_def)

lemma reports_synchronize: "reports (synchronize dev)"
  by (simp add: synchronize_def reports_checked_call)

lemma reports_fill_scratchpad_lane: "reports (fill_scratchpad_lane prims S n i)"
  by (simp add: reports_def grows_def added_def fill_scratchpad_lane_def Let_def fprintf_stderr_def split: prod.splits)

lemma reports_fill_program_lane: "reports (fill_program_lane prims P n i)"
  by (simp add: reports_def grows_def added_def fill_program_lane_def Let_def fprintf_stderr_def split: prod.splits)

lemma reports_hashAes_lane: "reports (hashAes_lane prims S R n i)"
  by (simp add: reports_def grows_def added_def hashAes_lane_def Let_def fprintf_stderr_def)

lemma reports_test_cases: "f \<in> set (test_cases prims cfg n dev) \<Longrightarrow> reports f"
  by (auto simp: test_cases_def tests_prelude_def initial_hash_test_def fill_scratchpads_test_def
      fill_programs_test_def hashAes_test_def hash_registers_test_def
      reports_allocate reports_allocate_silent reports_checked_call reports_launch
      reports_checked_launch reports_on_host reports_printf reports_require reports_memcpy
      reports_synchronize reports_fill_scratchpad_lane reports_fill_program_lane
      reports_hashAes_lane)

lemma trace_destroy:
  "\<exists>frees. trace (destroy dev b st) = trace st @ frees \<and> list_all is_free frees"
  by (simp add: destroy_def runtime_call_def Let_def)

lemma trace_fold_destroy:
  "\<exists>frees. trace (fold (destroy dev) bs st) = trace st @ frees \<and> list_all is_free frees"
proof (induction bs arbitrary: st)
  case Nil
  show ?case by simp
next
  case (Cons b bs)
  from trace_destroy [of dev b st] obtain f1 where
    f1: "trace (destroy dev b st) = trace st @ f1" "list_all is_free f1"
    by blast
  from Cons.IH [of "destroy dev b st"] obtain f2 where
    "trace (fold (destroy dev) bs (destroy dev b st)) = trace (destroy dev b st) @ f2"
    "list_all is_free f2"
    by blast
  with f1 have "trace (fold (destroy dev) (b # bs) st) = trace st @ (f1 @ f2)"
    "list_all is_free (f1 @ f2)"
    by simp_all
  then show ?case by blast
qed

lemma free_not_stderr: "list_all is_free es \<Longrightarrow> silent es"
  by (induction es) (auto elim: is_free.elims)

lemma dropWhile_silent: "silent es \<Longrightarrow> dropWhile (\<lambda>e. \<not> is_stderr e) (es @ rest) = dropWhile (\<lambda>e. \<not> is_stderr e) rest"
  by (rule dropWhile_append2) (simp add: silent_def list_all_iff)

lemma dropWhile_silent': "silent es \<Longrightarrow> dropWhile (\<lambda>e. \<not> is_stderr e) es = []"
  by (simp add: silent_def list_all_iff)

text \<open>
  C7, as amended. A verification mismatch is not fatal for the process, but it does end
  the harness: every failure path of \<^verbatim>\<open>tests\<close> prints its message and returns, so whatever
  follows the first error report in the trace is the release of a buffer, never another
  launch, copy or verdict. The later test cases do not run. Back in \<^verbatim>\<open>main\<close> the device is
  reset and the exit status depends on that reset alone, not on any verdict.
\<close>

theorem mismatch_ends_tests:
  "list_all is_free (tl (dropWhile (\<lambda>e. \<not> is_stderr e) (trace (ended (tests_with prims cfg n dev)))))
   \<and> fst (main_exit dev (ended (tests_with prims cfg n dev)))
       = (if ok dev (calls (ended (tests_with prims cfg n dev))) then 0 else 1)"
proof
  let ?s0 = "(initial_state, initial_memory cfg n)"
  let ?r = "run_steps (test_cases prims cfg n dev) ?s0"
  let ?P = "\<lambda>e. \<not> is_stderr e"
  have t0: "trace (fst ?s0) = []"
    by (simp add: initial_state_def)
  have inv: "case ?r of
        Inr s' \<Rightarrow> grows (fst ?s0) (fst s') \<and> silent (added (fst ?s0) (fst s'))
      | Inl s' \<Rightarrow> grows (fst ?s0) (fst s') \<and> silent (butlast (added (fst ?s0) (fst s')))"
    by (rule reports_run_steps) (simp add: reports_test_cases)
  show "list_all is_free (tl (dropWhile ?P (trace (ended (tests_with prims cfg n dev)))))"
  proof (cases ?r)
    case (Inr s)
    with inv t0 have "silent (trace (fst s))"
      by (simp add: added_def)
    with Inr show ?thesis
      by (simp add: tests_with_def dropWhile_silent')
  next
    case (Inl s)
    with inv t0 have s: "silent (butlast (trace (fst s)))"
      by (simp add: added_def)
    from trace_fold_destroy [of dev "live (fst s)" "fst s"] obtain frees where
      frees: "trace (release dev (fst s)) = trace (fst s) @ frees" "list_all is_free frees"
      by (auto simp: release_def)
    have e: "trace (ended (tests_with prims cfg n dev)) = trace (fst s) @ frees"
      using Inl frees(1) by (cases s) (simp add: tests_with_def)
    show ?thesis
    proof (cases "trace (fst s) = []")
      case True
      with e frees(2) show ?thesis
        by (simp add: dropWhile_silent' free_not_stderr)
    next
      case False
      then have "trace (fst s) = butlast (trace (fst s)) @ [last (trace (fst s))]"
        by simp
      then have "dropWhile ?P (trace (fst s) @ frees)
          = dropWhile ?P (last (trace (fst s)) # frees)"
        using dropWhile_silent [OF s, of "last (trace (fst s)) # frees"]
        by (metis append_Cons append_Nil append_assoc)
      with e frees(2) show ?thesis
        by (simp add: dropWhile_silent' free_not_stderr)
    qed
  qed
next
  show "fst (main_exit dev (ended (tests_with prims cfg n dev)))
       = (if ok dev (calls (ended (tests_with prims cfg n dev))) then 0 else 1)"
    by (simp add: main_exit_def runtime_call_def Let_def)
qed

subsection \<open>Buffers and their layouts\<close>

lemma length_slice: "off + n \<le> length buf \<Longrightarrow> length (bytes_at buf off n) = n"
  by (simp add: bytes_at_def)

lemma nth_slice: "j < n \<Longrightarrow> off + n \<le> length buf \<Longrightarrow> bytes_at buf off n ! j = buf ! (off + j)"
  by (simp add: bytes_at_def)

lemma length_store: "off + length d \<le> length buf \<Longrightarrow> length (store buf off d) = length buf"
  by (simp add: store_def)

lemma nth_store:
  "off + length d \<le> length buf \<Longrightarrow> j < length buf \<Longrightarrow>
   store buf off d ! j = (if off \<le> j \<and> j < off + length d then d ! (j - off) else buf ! j)"
  by (auto simp: store_def nth_append)

lemma slice_store_same:
  "off + length d \<le> length buf \<Longrightarrow> bytes_at (store buf off d) off (length d) = d"
  by (simp add: store_def bytes_at_def)

lemma slice_store_other:
  assumes "off + length d \<le> length buf" and "o2 + k \<le> length buf"
    and "o2 + k \<le> off \<or> off + length d \<le> o2"
  shows "bytes_at (store buf off d) o2 k = bytes_at buf o2 k"
proof (rule nth_equalityI)
  show "length (bytes_at (store buf off d) o2 k) = length (bytes_at buf o2 k)"
    using assms by (simp add: length_slice length_store)
next
  fix j assume "j < length (bytes_at (store buf off d) o2 k)"
  then have j: "j < k"
    using assms by (simp add: length_slice length_store)
  then show "bytes_at (store buf off d) o2 k ! j = bytes_at buf o2 k ! j"
    using assms by (auto simp: nth_slice length_store nth_store)
qed

lemma store_store_same:
  "length a = length b \<Longrightarrow> off + length a \<le> length buf \<Longrightarrow>
   store (store buf off a) off b = store buf off b"
  by (simp add: store_def)

lemma store_slice_same:
  "off + k \<le> length buf \<Longrightarrow> store buf off (bytes_at buf off k) = buf"
  by (simp add: store_def bytes_at_def) (metis append_take_drop_id drop_drop add.commute)

lemma slice_concat_uniform:
  assumes "\<And>x. x \<in> set xs \<Longrightarrow> length (f x) = k" and "i < length xs"
  shows "bytes_at (concat (map f xs)) (i * k) k = f (xs ! i)"
  using assms
proof (induction xs arbitrary: i)
  case Nil
  then show ?case by simp
next
  case (Cons x xs)
  show ?case
  proof (cases i)
    case 0
    with Cons.prems show ?thesis
      by (simp add: bytes_at_def)
  next
    case (Suc j)
    with Cons.prems have "bytes_at (concat (map f xs)) (j * k) k = f (xs ! j)"
      by (intro Cons.IH) simp_all
    with Suc Cons.prems(1) [of x] show ?thesis
      by (simp add: bytes_at_def)
  qed
qed


lemma slice_chunks:
  "bytes_at buf base (K * k) = concat (map (\<lambda>c. bytes_at buf (base + c * k) k) [0..<K])"
proof (induction K)
  case 0
  show ?case by (simp add: bytes_at_def)
next
  case (Suc K)
  have e: "Suc K * k = K * k + k"
    by simp
  have "bytes_at buf base (Suc K * k) = bytes_at buf base (K * k) @ bytes_at buf (base + K * k) k"
    unfolding bytes_at_def e take_add drop_drop by (simp add: add.commute)
  with Suc show ?case by simp
qed



lemma same_bytes_store:
  assumes "off + length d \<le> length b"
  shows "same_bytes a off (store b off d) off (length d) \<longleftrightarrow> bytes_at a off (length d) = d"
  using assms by (simp add: same_bytes_def slice_store_same)




subsection \<open>The reference hashes and the states of the fill\<close>

lemma bytes_at_all: "bytes_at buf 0 (length buf) = buf"
  by (simp add: bytes_at_def)

lemma chunks_determine:
  assumes "length a = n * k" and "length b = n * k"
    and "\<And>i. i < n \<Longrightarrow> bytes_at a (i * k) k = bytes_at b (i * k) k"
  shows "a = b"
proof -
  have "a = bytes_at a 0 (n * k)" "b = bytes_at b 0 (n * k)"
    using assms(1,2) bytes_at_all [of a] bytes_at_all [of b] by simp_all
  moreover have "bytes_at a 0 (n * k) = bytes_at b 0 (n * k)"
    unfolding slice_chunks using assms(3) by (intro arg_cong [where f = concat] map_cong) simp_all
  ultimately show ?thesis by simp
qed

lemma length_le32: "length (le32 w) = 4"
  by (simp add: le32_def)

lemma reference_loop:
  assumes H: "\<And>t. length (blake2b_fn prims 64 t) = 64"
    and T: "43 \<le> length T"
    and k: "k \<le> n"
    and m: "length (hash2 m) = 64 * n" "\<exists>x. length x = 4 \<and> blockTemplate m = store T 39 x"
  shows "length (hash2 (fold (reference_initial_hash prims) [0..<k] m)) = 64 * n
       \<and> (\<exists>x. length x = 4 \<and> blockTemplate (fold (reference_initial_hash prims) [0..<k] m) = store T 39 x)
       \<and> (\<forall>i<k. bytes_at (hash2 (fold (reference_initial_hash prims) [0..<k] m)) (i * 64) 64
             = initial_hash prims T 0 i)"
  using k
proof (induction k)
  case 0
  with m show ?case by simp
next
  case (Suc k)
  define m' where "m' = fold (reference_initial_hash prims) [0..<k] m"
  from Suc have IH: "length (hash2 m') = 64 * n"
    "\<exists>x. length x = 4 \<and> blockTemplate m' = store T 39 x"
    "\<forall>i<k. bytes_at (hash2 m') (i * 64) 64 = initial_hash prims T 0 i"
    by (simp_all add: m'_def)
  from IH(2) obtain x where x: "length x = 4" "blockTemplate m' = store T 39 x"
    by blast
  define t where "t = store (blockTemplate m') 39 (le32 (of_nat k))"
  have t: "t = store T 39 (le32 (of_nat k))"
    using x T by (simp add: t_def store_store_same length_le32)
  define d where "d = blake2b_fn prims 64 t"
  have d: "length d = 64" "d = initial_hash prims T 0 k"
    using H by (simp_all add: d_def t initial_hash_def)
  have step: "fold (reference_initial_hash prims) [0..<Suc k] m
      = m'\<lparr>blockTemplate := t, hash2 := store (hash2 m') (k * 64) d\<rparr>"
    by (simp add: m'_def reference_initial_hash_def Let_def t_def d_def)
  have fit: "k * 64 + length d \<le> length (hash2 m')"
    using Suc.prems IH(1) d(1) by simp
  have 1: "length (store (hash2 m') (k * 64) d) = 64 * n"
    using fit IH(1) by (simp add: length_store)
  have 2: "\<exists>x. length x = 4 \<and> t = store T 39 x"
    using t length_le32 by blast
  have 3: "bytes_at (store (hash2 m') (k * 64) d) (i * 64) 64 = initial_hash prims T 0 i"
    if "i < Suc k" for i
  proof (cases "i = k")
    case True
    with slice_store_same [OF fit] d show ?thesis by simp
  next
    case False
    with that have i: "i < k" by simp
    then have "i * 64 + 64 \<le> k * 64"
      by simp
    moreover from this fit have "i * 64 + 64 \<le> length (hash2 m')"
      by simp
    ultimately have "bytes_at (store (hash2 m') (k * 64) d) (i * 64) 64 = bytes_at (hash2 m') (i * 64) 64"
      using fit by (intro slice_store_other) simp_all
    with IH(3) i show ?thesis by simp
  qed
  from 1 2 3 show ?case
    unfolding step by simp
qed

lemma store_template_self:
  "43 \<le> length T \<Longrightarrow> \<exists>x. length x = 4 \<and> T = store T 39 x"
  using store_slice_same [of 39 4 T] by (intro exI [of _ "bytes_at T 39 4"]) (simp add: length_slice)

lemma reference_hashes:
  assumes "\<And>t. length (blake2b_fn prims 64 t) = 64"
    and "43 \<le> length (blockTemplate m)" and "length (hash2 m) = 64 * n"
  shows "hash2 (fold (reference_initial_hash prims) [0..<n] m)
           = blake2b_initial_hash_kernel prims (blockTemplate m) 0 n"
proof (rule chunks_determine [where n = n and k = 64])
  let ?m = "fold (reference_initial_hash prims) [0..<n] m"
  from reference_loop [OF assms(1,2) le_refl assms(3) store_template_self [OF assms(2)]]
  have r: "length (hash2 ?m) = 64 * n"
    "\<forall>i<n. bytes_at (hash2 ?m) (i * 64) 64 = initial_hash prims (blockTemplate m) 0 i"
    by simp_all
  show "length (hash2 ?m) = n * 64"
    using r(1) by simp
  have l: "length (concat (map f [0..<j])) = j * 64" if "\<And>c. length (f c) = 64" for f :: "nat \<Rightarrow> bytes" and j
    using that by (induction j) simp_all
  show "length (blake2b_initial_hash_kernel prims (blockTemplate m) 0 n) = n * 64"
    unfolding blake2b_initial_hash_kernel_def
    by (rule l) (simp add: initial_hash_def assms(1))
  fix i assume i: "i < n"
  have "bytes_at (blake2b_initial_hash_kernel prims (blockTemplate m) 0 n) (i * 64) 64
      = initial_hash prims (blockTemplate m) 0 ([0..<n] ! i)"
    unfolding blake2b_initial_hash_kernel_def using i
    by (intro slice_concat_uniform) (simp_all add: initial_hash_def assms(1))
  with r(2) i show "bytes_at (hash2 ?m) (i * 64) 64
      = bytes_at (blake2b_initial_hash_kernel prims (blockTemplate m) 0 n) (i * 64) 64"
    by simp
qed

text \<open>
  C2. For every template \<open>T\<close>, nonce base \<open>B\<close> and lane \<open>i\<close> of a batch of any size \<open>n\<close>, the 64
  bytes of lane \<open>i\<close> in the output of the initial hash kernel are the reference hash of the
  template with the four bytes at offset 39 overwritten by \<open>B + i\<close>, little-endian. At
  nonce base 0 the whole output is what the harness computes sequentially, with one
  template that it patches in place lane after lane, so the kernel passes the check of
  line 361.
\<close>

theorem initial_hash_digest:
  assumes "\<And>t. length (blake2b_fn prims 64 t) = 64" and "i < n"
  shows "bytes_at (blake2b_initial_hash_kernel prims T B n) (i * 64) 64
           = blake2b_fn prims 64 (store T 39 (le32 (B + of_nat i)))
       \<and> (43 \<le> length (blockTemplate m) \<and> length (hash2 m) = 64 * n \<longrightarrow>
            hash2 (fold (reference_initial_hash prims) [0..<n] m)
              = blake2b_initial_hash_kernel prims (blockTemplate m) 0 n)"
proof
  have "bytes_at (blake2b_initial_hash_kernel prims T B n) (i * 64) 64
      = initial_hash prims T B ([0..<n] ! i)"
    unfolding blake2b_initial_hash_kernel_def using assms(2)
    by (intro slice_concat_uniform) (simp_all add: initial_hash_def assms(1))
  then show "bytes_at (blake2b_initial_hash_kernel prims T B n) (i * 64) 64
           = blake2b_fn prims 64 (store T 39 (le32 (B + of_nat i)))"
    using assms(2) by (simp add: initial_hash_def)
next
  show "43 \<le> length (blockTemplate m) \<and> length (hash2 m) = 64 * n \<longrightarrow>
            hash2 (fold (reference_initial_hash prims) [0..<n] m)
              = blake2b_initial_hash_kernel prims (blockTemplate m) 0 n"
    using reference_hashes [OF assms(1)] by blast
qed

theorem initial_hash_digest_witness:
  "(\<forall>t. length (blake2b_fn toy_primitives 64 t) = 64) \<and> (3::nat) < 4
   \<and> store blockTemplate_init 39 (le32 (5 + of_nat 3)) ! 39 = 8
   \<and> bytes_at (blake2b_initial_hash_kernel toy_primitives blockTemplate_init 5 4) (3 * 64) 64
       = replicate 64 8"
proof -
  have l: "length (blake2b_fn toy_primitives 64 t) = 64" for t
    by (simp add: toy_primitives_def)
  have s: "store blockTemplate_init 39 (le32 (5 + of_nat 3)) ! 39 = 8"
    by code_simp
  from initial_hash_digest [OF l, of 3 4 blockTemplate_init 5] l s show ?thesis
    by (simp add: toy_primitives_def)
qed

theorem mismatch_ends_tests_witness:
  "list_all is_free (tl (dropWhile (\<lambda>e. \<not> is_stderr e)
      (trace (ended (tests_with toy_primitives sample_config 128 healthy_device)))))
   \<and> fst (main_exit healthy_device
        (ended (tests_with toy_primitives sample_config 128 healthy_device))) = 0"
  using mismatch_ends_tests [of toy_primitives sample_config 128 healthy_device]
  by (simp add: healthy_device_def)


lemma fill_program_lane_state:
  assumes "length (hash2 m) = 64 * n" and "i < n"
    and "length (fst (fillAes_fn prims (bytes_at (hash2 m) (i * 64) 64) P)) = 64"
    and "fill_program_lane prims P n i (st, m) = Inr (st', m')"
  shows "bytes_at (hash m') (i * 64) 64 = fst (fillAes_fn prims (bytes_at (hash2 m) (i * 64) 64) P)"
    and "bytes_at (hash2 m') (i * 64) 64 = fst (fillAes_fn prims (bytes_at (hash2 m) (i * 64) 64) P)"
proof -
  obtain state' out where r: "fillAes_fn prims (bytes_at (hash2 m) (i * 64) 64) P = (state', out)"
    by (cases "fillAes_fn prims (bytes_at (hash2 m) (i * 64) 64) P")
  with assms(3) have l: "length state' = 64"
    by simp
  have f1: "i * 64 + length state' \<le> length (hash2 m)"
    using assms(1,2) l by simp
  have h: "same_bytes (hash m) (i * 64) (store (hash2 m) (i * 64) state') (i * 64) 64
      \<longleftrightarrow> bytes_at (hash m) (i * 64) 64 = state'"
    using same_bytes_store [OF f1, of "hash m"] l by simp
  from assms(4) have m': "m' = m\<lparr>hash2 := store (hash2 m) (i * 64) state',
      programs := store (programs m) (P * (n + i)) out\<rparr>"
    and eq: "bytes_at (hash m) (i * 64) 64 = state'"
    by (auto simp: fill_program_lane_def r Let_def h split: if_splits)
  show "bytes_at (hash m') (i * 64) 64 = fst (fillAes_fn prims (bytes_at (hash2 m) (i * 64) 64) P)"
    using eq by (simp add: m' r)
  show "bytes_at (hash2 m') (i * 64) 64 = fst (fillAes_fn prims (bytes_at (hash2 m) (i * 64) 64) P)"
    using slice_store_same [OF f1] l by (simp add: m' r)
qed


lemma tests_first_mismatch:
  assumes "\<forall>k. ok dev k"
    and "\<not> same_bytes
           (hash (fold (reference_initial_hash prims) [0..<n]
              (put_hash (map (readback dev 10) [0..<64 * n]) (initial_memory cfg n)))) 0
           (hash2 (fold (reference_initial_hash prims) [0..<n]
              (put_hash (map (readback dev 10) [0..<64 * n]) (initial_memory cfg n)))) 0 (64 * n)"
  shows "isl (tests_with prims cfg n dev)"
    and "trace (ended (tests_with prims cfg n dev)) =
      [Malloc Hashes (64 * of_nat n), Malloc BlockTemplate 76, Malloc NonceOut 8,
       Malloc States (64 * of_nat n * 2048), Malloc Scratchpads (SCRATCHPAD_SIZE cfg * 2048),
       Malloc Programs (SCRATCHPAD_SIZE cfg * of_nat n),
       Malloc Registers (REGISTERS_SIZE cfg * of_nat n), MemcpyToDevice BlockTemplate,
       Launch Blake2b_initial_hash [Buf Hashes, Buf BlockTemplate, Nonce 0],
       DeviceSynchronize, MemcpyToHost Hashes, Stderr ''blake2b_initial_hash test failed!'',
       Free Registers, Free Programs, Free Scratchpads, Free States, Free NonceOut,
       Free BlockTemplate, Free Hashes]"
proof -
  have ten: "Suc (Suc (Suc (Suc (Suc (Suc (Suc (Suc (Suc (Suc 0))))))))) = 10"
    by simp
  have r: "run_steps (tests_prelude cfg n dev @ initial_hash_test prims n dev)
      (initial_state, initial_memory cfg n) = Inl
       (\<lparr>calls = 11, last_error = False,
         live = [Registers, Programs, Scratchpads, States, NonceOut, BlockTemplate, Hashes],
         free_mem = 0, batch_size = 0, nonce = 0,
         trace = [Malloc Hashes (64 * of_nat n), Malloc BlockTemplate 76, Malloc NonceOut 8,
           Malloc States (64 * of_nat n * 2048), Malloc Scratchpads (SCRATCHPAD_SIZE cfg * 2048),
           Malloc Programs (SCRATCHPAD_SIZE cfg * of_nat n),
           Malloc Registers (REGISTERS_SIZE cfg * of_nat n), MemcpyToDevice BlockTemplate,
           Launch Blake2b_initial_hash [Buf Hashes, Buf BlockTemplate, Nonce 0],
           DeviceSynchronize, MemcpyToHost Hashes, Stderr ''blake2b_initial_hash test failed!'']\<rparr>,
        fold (reference_initial_hash prims) [0..<n]
              (put_hash (map (readback dev 10) [0..<64 * n]) (initial_memory cfg n)))"
    using assms
    by (simp add: tests_prelude_def initial_hash_test_def on_device_def allocate_def GPUPtr_def
        runtime_call_def checked_call_def launch_def synchronize_def memcpy_to_host_def
        on_host_def require_def fprintf_stderr_def initial_state_def Let_def ten)
  obtain rest where tc: "test_cases prims cfg n dev
      = (tests_prelude cfg n dev @ initial_hash_test prims n dev) @ rest"
    by (simp add: test_cases_def)
  have t: "run_steps (test_cases prims cfg n dev) (initial_state, initial_memory cfg n)
      = run_steps (tests_prelude cfg n dev @ initial_hash_test prims n dev)
          (initial_state, initial_memory cfg n)"
    unfolding tc run_steps_append [of _ rest] r by simp
  show "isl (tests_with prims cfg n dev)"
    by (simp add: tests_with_def t r)
  show "trace (ended (tests_with prims cfg n dev)) =
      [Malloc Hashes (64 * of_nat n), Malloc BlockTemplate 76, Malloc NonceOut 8,
       Malloc States (64 * of_nat n * 2048), Malloc Scratchpads (SCRATCHPAD_SIZE cfg * 2048),
       Malloc Programs (SCRATCHPAD_SIZE cfg * of_nat n),
       Malloc Registers (REGISTERS_SIZE cfg * of_nat n), MemcpyToDevice BlockTemplate,
       Launch Blake2b_initial_hash [Buf Hashes, Buf BlockTemplate, Nonce 0],
       DeviceSynchronize, MemcpyToHost Hashes, Stderr ''blake2b_initial_hash test failed!'',
       Free Registers, Free Programs, Free Scratchpads, Free States, Free NonceOut,
       Free BlockTemplate, Free Hashes]"
    using assms(1)
    by (simp add: tests_with_def t r release_def destroy_def runtime_call_def Let_def)
qed

lemma hash_fold_unchanged: "hash (fold (reference_initial_hash prims) xs m) = hash m"
  by (induction xs arbitrary: m) (simp_all add: reference_initial_hash_def Let_def)

lemma same_bytes_whole:
  "length a = L \<Longrightarrow> length b = L \<Longrightarrow> same_bytes a 0 b 0 L \<longleftrightarrow> a = b"
  by (simp add: same_bytes_def bytes_at_def)

lemma toy_tests_mismatch:
  assumes "2 \<le> n"
  shows "\<not> same_bytes
           (hash (fold (reference_initial_hash toy_primitives) [0..<n]
              (put_hash (map (readback healthy_device 10) [0..<64 * n]) (initial_memory cfg n)))) 0
           (hash2 (fold (reference_initial_hash toy_primitives) [0..<n]
              (put_hash (map (readback healthy_device 10) [0..<64 * n]) (initial_memory cfg n)))) 0
           (64 * n)"
proof
  let ?m0 = "put_hash (map (readback healthy_device 10) [0..<64 * n]) (initial_memory cfg n)"
  let ?M = "fold (reference_initial_hash toy_primitives) [0..<n] ?m0"
  assume s: "same_bytes (hash ?M) 0 (hash2 ?M) 0 (64 * n)"
  have h: "hash ?M = replicate (64 * n) 0"
    by (simp add: hash_fold_unchanged put_hash_def initial_memory_def store_def
        healthy_device_def map_replicate_const)
  have H: "length (blake2b_fn toy_primitives 64 t) = 64" for t
    by (simp add: toy_primitives_def)
  have T: "43 \<le> length (blockTemplate ?m0)" "length (hash2 ?m0) = 64 * n"
    by (simp_all add: put_hash_def initial_memory_def blockTemplate_init_def)
  from reference_loop [OF H T(1) le_refl T(2) store_template_self [OF T(1)]]
  have l: "length (hash2 ?M) = 64 * n"
    and all: "\<forall>i<n. bytes_at (hash2 ?M) (i * 64) 64
        = initial_hash toy_primitives (blockTemplate ?m0) 0 i"
    by blast+
  from all [rule_format, of 1] assms
  have one: "bytes_at (hash2 ?M) (1 * 64) 64 = initial_hash toy_primitives (blockTemplate ?m0) 0 1"
    by simp
  have "initial_hash toy_primitives (blockTemplate ?m0) 0 1 = replicate 64 1"
    by (simp add: initial_hash_def toy_primitives_def put_hash_def initial_memory_def
        blockTemplate_init_def store_def le32_def)
  with one have b: "bytes_at (hash2 ?M) 64 64 = replicate 64 1"
    by simp
  from s h l have "hash2 ?M = replicate (64 * n) 0"
    using same_bytes_whole [of "hash ?M" "64 * n" "hash2 ?M"] by simp
  then have "bytes_at (hash2 ?M) 64 64 = replicate 64 0"
    using assms by (simp add: bytes_at_def min_def)
  with b show False
    by simp
qed

text \<open>
  C7 as stated fails: when the first test case finds a mismatch, the harness prints the
  failure and returns; the fill, hash and register tests that follow never launch.
\<close>

theorem later_tests_do_not_run:
  "isl (tests toy_primitives sample_config healthy_device)
   \<and> trace (ended (tests toy_primitives sample_config healthy_device)) =
      [Malloc Hashes 8192, Malloc BlockTemplate 76, Malloc NonceOut 8,
       Malloc States 16777216, Malloc Scratchpads 4294967296, Malloc Programs 268435456,
       Malloc Registers 32768, MemcpyToDevice BlockTemplate,
       Launch Blake2b_initial_hash [Buf Hashes, Buf BlockTemplate, Nonce 0],
       DeviceSynchronize, MemcpyToHost Hashes, Stderr ''blake2b_initial_hash test failed!'',
       Free Registers, Free Programs, Free Scratchpads, Free States, Free NonceOut,
       Free BlockTemplate, Free Hashes]"
proof -
  have d: "\<forall>k. ok healthy_device k"
    by (simp add: healthy_device_def)
  have n: "(2::nat) \<le> 128"
    by simp
  from tests_first_mismatch [OF d toy_tests_mismatch [OF n], of sample_config] show ?thesis
    by (simp add: tests_def NUM_SCRATCHPADS_TEST_def sample_config_def)
qed

subsection \<open>The output of the fill kernel\<close>



















subsection \<open>The register hash\<close>

lemma rotr64_of_nat:
  assumes "n \<le> 64" and "m = mask n"
  shows "rotr64 n (word_of_nat k) =
     word_of_nat (drop_bit n (k AND 18446744073709551615) OR push_bit (64 - n) (k AND m))"
proof -
  have m: "(18446744073709551615 :: nat) = mask 64"
    by (simp add: mask_eq_exp_minus_1)
  show ?thesis
    unfolding rotr64_def m assms(2)
    by (rule bit_word_eqI) (use assms(1) in \<open>auto simp add: bit_simps\<close>)
qed

lemma rotr64_numeral:
  assumes "n \<le> 64" and "m = mask n"
  shows "rotr64 n (numeral k) =
     word_of_nat (drop_bit n (numeral k AND 18446744073709551615)
       OR push_bit (64 - n) (numeral k AND m))"
  using rotr64_of_nat [OF assms, of "numeral k"] by simp

lemma rotr64_32:
  "rotr64 32 (numeral k) =
     word_of_nat (drop_bit 32 (numeral k AND 18446744073709551615)
       OR push_bit (64 - 32) (numeral k AND 4294967295))"
  by (rule rotr64_numeral) (simp_all add: mask_eq_exp_minus_1)

lemma rotr64_24:
  "rotr64 24 (numeral k) =
     word_of_nat (drop_bit 24 (numeral k AND 18446744073709551615)
       OR push_bit (64 - 24) (numeral k AND 16777215))"
  by (rule rotr64_numeral) (simp_all add: mask_eq_exp_minus_1)

lemma rotr64_16:
  "rotr64 16 (numeral k) =
     word_of_nat (drop_bit 16 (numeral k AND 18446744073709551615)
       OR push_bit (64 - 16) (numeral k AND 65535))"
  by (rule rotr64_numeral) (simp_all add: mask_eq_exp_minus_1)

lemma rotr64_63:
  "rotr64 63 (numeral k) =
     word_of_nat (drop_bit 63 (numeral k AND 18446744073709551615)
       OR push_bit (64 - 63) (numeral k AND 9223372036854775807))"
  by (rule rotr64_numeral) (simp_all add: mask_eq_exp_minus_1)

lemma upt_12: "[0..<12] = [0, 1, 2, 3, 4, 5, 6, 7, 8, 9, 10, 11]"
  by (simp add: upt_rec)

lemma upt_8: "[0..<8] = [0, 1, 2, 3, 4, 5, 6, 7]"
  by (simp add: upt_rec)

lemmas blake2b_eval =
  upt_12 upt_8 rotr64_32 rotr64_24 rotr64_16 rotr64_63 G_add_def G_rot_def blake2b_G_def
  blake2b_round_def blake2b_sigma_def blake2b_IV_def blake2b_start_def blake2b_rounds_def
  blake2b_finish_def blake2b_F_def

lemma le64_zero: "le64 (replicate n 0) = 0"
  by (induction n) simp_all

lemma block_words_zero: "block_words (replicate 128 0) = replicate 16 0"
proof -
  have "le64 (take 8 (drop (8 * k) (replicate 128 0 @ replicate 128 0))) = 0" for k
    by (simp add: le64_zero flip: replicate_add)
  then show ?thesis
    by (simp add: block_words_def map_replicate_const)
qed

text \<open>
  The two blocks of 256 zero bytes, for the output lengths 32 and 64: the chaining values
  after the first block and after the last one.
\<close>

lemma compress_32_first:
  "blake2b_F [7640891576939301160, 13503953896175478587, 4354685564936845355, 11912009170470909681,
     5840696475078001361, 11170449401992604703, 2270897969802886507, 6620516959819538809]
     (replicate 16 0) 128 False =
   [15831469057819184365, 16458314511652171652, 3152838211535659685, 6130385541626988771,
   14842529705047216445, 12781468211221018167, 9056782698643147970, 4080121866783085924]"
  by (simp add: blake2b_eval)

lemma compress_32_last:
  "blake2b_F [15831469057819184365, 16458314511652171652, 3152838211535659685, 6130385541626988771,
     14842529705047216445, 12781468211221018167, 9056782698643147970, 4080121866783085924]
     (replicate 16 0) 256 True =
   [11837872734068566315, 14833737463662666454, 10566756083215502686, 169963972245714602,
   11376696797736084437, 2717185615796948846, 13860556228778755380, 6765715747355699071]"
  by (simp add: blake2b_eval)

lemma blake2b_32_zero:
  "blake2b 32 (replicate 256 0) =
   [43, 105, 112, 42, 136, 146, 72, 164, 214, 98, 4, 117, 161, 5, 220, 205, 94, 13, 66, 48,
   172, 168, 164, 146, 170, 246, 81, 14, 85, 213, 91, 2]"
  by (simp add: blake2b_def blake2b_blocks.simps blake2b_IV_def block_words_zero
      compress_32_first compress_32_last le64_bytes_def upt_8)

lemma compress_64_first:
  "blake2b_F [7640891576939301192, 13503953896175478587, 4354685564936845355, 11912009170470909681,
     5840696475078001361, 11170449401992604703, 2270897969802886507, 6620516959819538809]
     (replicate 16 0) 128 False =
   [10404712825457917181, 10627418891158730542, 9695605388307568311, 18002384319625677019,
   9596350744596172685, 10671588777288974954, 2952971906150144297, 4424014013133313484]"
  by (simp add: blake2b_eval)

lemma compress_64_last:
  "blake2b_F [10404712825457917181, 10627418891158730542, 9695605388307568311, 18002384319625677019,
     9596350744596172685, 10671588777288974954, 2952971906150144297, 4424014013133313484]
     (replicate 16 0) 256 True =
   [10707426973810662636, 10332680800514503789, 5359093151659213570, 18038697964538402042,
   6501862023744580436, 13381508535224287130, 853551207737392032, 3323890552379504926]"
  by (simp add: blake2b_eval)

lemma blake2b_64_zero:
  "blake2b 64 (replicate 256 0) =
   [236, 156, 107, 48, 26, 108, 152, 148, 109, 116, 42, 116, 113, 14, 101, 143, 2, 67, 224,
   230, 211, 82, 95, 74, 250, 148, 223, 194, 57, 84, 86, 250, 84, 235, 229, 239, 15, 65, 59,
   90, 154, 191, 230, 80, 29, 171, 180, 185, 160, 251, 202, 22, 77, 108, 216, 11, 30, 121,
   219, 190, 216, 212, 32, 46]"
  by (simp add: blake2b_def blake2b_blocks.simps blake2b_IV_def block_words_zero
      compress_64_first compress_64_last le64_bytes_def upt_8)

lemma length_blake2b_blocks: "length (blake2b_blocks h msg t) = 8"
proof (induction h msg t rule: blake2b_blocks.induct)
  case (1 h msg t)
  show ?case
  proof (cases "length msg \<le> 128")
    case True
    then show ?thesis
      by (subst blake2b_blocks.simps) (simp add: blake2b_F_def blake2b_finish_def)
  next
    case False
    with 1 show ?thesis
      by (subst blake2b_blocks.simps) simp
  qed
qed

lemma length_blake2b: "w \<le> 64 \<Longrightarrow> length (blake2b w msg) = w"
proof -
  have c: "length (concat (map le64_bytes hs)) = 8 * length hs" for hs
    by (induction hs) (simp_all add: le64_bytes_def)
  assume "w \<le> 64"
  then show ?thesis
    by (simp add: blake2b_def c length_blake2b_blocks)
qed

lemma reference_registers_loop:
  assumes H: "\<And>t. length (blake2b_fn prims w t) = w"
    and w: "w \<le> 64" and k: "k \<le> n" and m: "length (hash2 m) = 64 * n"
  shows "length (hash2 (fold (reference_hash_registers prims R w) [0..<k] m)) = 64 * n
       \<and> registers2 (fold (reference_hash_registers prims R w) [0..<k] m) = registers2 m
       \<and> (\<forall>i<k. bytes_at (hash2 (fold (reference_hash_registers prims R w) [0..<k] m)) (i * w) w
             = fold_registers prims R w (registers2 m) i)"
  using k
proof (induction k)
  case 0
  with m show ?case by simp
next
  case (Suc k)
  define m' where "m' = fold (reference_hash_registers prims R w) [0..<k] m"
  from Suc have IH: "length (hash2 m') = 64 * n" "registers2 m' = registers2 m"
    "\<forall>i<k. bytes_at (hash2 m') (i * w) w = fold_registers prims R w (registers2 m) i"
    by (simp_all add: m'_def)
  define d where "d = blake2b_fn prims w (bytes_at (registers2 m') (k * R) R)"
  have d: "length d = w" "d = fold_registers prims R w (registers2 m) k"
    using H IH(2) by (simp_all add: d_def fold_registers_def)
  have step: "fold (reference_hash_registers prims R w) [0..<Suc k] m
      = m'\<lparr>hash2 := store (hash2 m') (k * w) d\<rparr>"
    by (simp add: m'_def reference_hash_registers_def d_def)
  from Suc.prems have "Suc k * w \<le> n * w"
    by (intro mult_le_mono1) simp
  also from w have "n * w \<le> n * 64"
    by (intro mult_le_mono2)
  finally have fit: "k * w + length d \<le> length (hash2 m')"
    using IH(1) d(1) by simp
  have 1: "length (store (hash2 m') (k * w) d) = 64 * n"
    using fit IH(1) by (simp add: length_store)
  have 3: "bytes_at (store (hash2 m') (k * w) d) (i * w) w = fold_registers prims R w (registers2 m) i"
    if "i < Suc k" for i
  proof (cases "i = k")
    case True
    with slice_store_same [OF fit] d show ?thesis by simp
  next
    case False
    with that have i: "i < k" by simp
    then have "Suc i * w \<le> k * w"
      by (intro mult_le_mono1) simp
    then have le: "i * w + w \<le> k * w"
      by simp
    moreover from this fit have "i * w + w \<le> length (hash2 m')"
      by simp
    ultimately have "bytes_at (store (hash2 m') (k * w) d) (i * w) w = bytes_at (hash2 m') (i * w) w"
      using fit by (intro slice_store_other) simp_all
    with IH(3) i show ?thesis by simp
  qed
  from 1 3 IH(2) show ?case
    unfolding step by simp
qed

lemma kernel_lane:
  assumes "\<And>t. length (blake2b_fn prims w t) = w" and "i < n"
  shows "bytes_at (blake2b_hash_registers_kernel prims R w regs n) (i * w) w
           = fold_registers prims R w regs i"
proof -
  have "bytes_at (blake2b_hash_registers_kernel prims R w regs n) (i * w) w
      = fold_registers prims R w regs ([0..<n] ! i)"
    unfolding blake2b_hash_registers_kernel_def using assms(2)
    by (intro slice_concat_uniform) (simp_all add: fold_registers_def assms(1))
  with assms(2) show ?thesis by simp
qed

lemma reference_registers:
  assumes H: "\<And>t. length (blake2b_fn prims w t) = w"
    and w: "w \<le> 64" and m: "length (hash2 m) = 64 * n"
  shows "same_bytes (blake2b_hash_registers_kernel prims R w (registers2 m) n) 0
           (hash2 (fold (reference_hash_registers prims R w) [0..<n] m)) 0 (n * w)"
proof -
  let ?K = "blake2b_hash_registers_kernel prims R w (registers2 m) n"
  let ?H = "hash2 (fold (reference_hash_registers prims R w) [0..<n] m)"
  from reference_registers_loop [OF H w le_refl m]
  have r: "bytes_at ?H (i * w) w = fold_registers prims R w (registers2 m) i" if "i < n" for i
    using that by simp
  have e: "map (\<lambda>c. bytes_at ?K (c * w) w) [0..<n] = map (\<lambda>c. bytes_at ?H (c * w) w) [0..<n]"
    by (rule map_cong) (simp_all add: r kernel_lane [OF H])
  show ?thesis
    by (simp add: same_bytes_def slice_chunks e)
qed

text \<open>
  C4. For every register buffer and each of its lanes, the register hash kernel with the
  digest width \<open>w\<close> writes at byte offset \<open>i * w\<close> the reference hash of the lane's register
  file computed with the output length \<open>w\<close>, and the first \<open>n * w\<close> bytes of its output are
  those that the harness computes sequentially at lines 500 to 503 (\<open>w = 32\<close>) and 528 to
  531 (\<open>w = 64\<close>) and compares at lines 505 and 533. The digest of width 32 is the hash with
  the output length 32, not a prefix of the digest of width 64.
\<close>

theorem register_digest_widths:
  assumes "\<And>t. length (blake2b_fn prims w t) = w" and "i < n"
  shows "bytes_at (blake2b_hash_registers_kernel prims R w regs n) (i * w) w
           = blake2b_fn prims w (bytes_at regs (i * R) R)
       \<and> (w \<le> 64 \<and> length (hash2 m) = 64 * n \<longrightarrow>
            same_bytes (blake2b_hash_registers_kernel prims R w (registers2 m) n) 0
              (hash2 (fold (reference_hash_registers prims R w) [0..<n] m)) 0 (n * w))"
  using kernel_lane [OF assms, of R regs] reference_registers [OF assms(1), of m n R]
  by (simp add: fold_registers_def)

theorem register_digest_widths_witness:
  "(\<forall>t. length (blake2b_fn blake2b_primitives 32 t) = 32) \<and> (0::nat) < 1
   \<and> bytes_at (blake2b_hash_registers_kernel blake2b_primitives 256 32 (replicate 256 0) 1) 0 32
       = [43, 105, 112, 42, 136, 146, 72, 164, 214, 98, 4, 117, 161, 5, 220, 205, 94, 13,
         66, 48, 172, 168, 164, 146, 170, 246, 81, 14, 85, 213, 91, 2]
   \<and> length (hash2 zero_registers_memory) = 64
   \<and> same_bytes
        (blake2b_hash_registers_kernel blake2b_primitives 256 32
           (registers2 zero_registers_memory) 1) 0
        (hash2 (fold (reference_hash_registers blake2b_primitives 256 32) [0..<1]
           zero_registers_memory)) 0 32"
proof -
  have l: "length (blake2b_fn blake2b_primitives 32 t) = 32" for t
    by (simp add: blake2b_primitives_def length_blake2b)
  have z: "blake2b_fn blake2b_primitives 32 (bytes_at (replicate 256 0) 0 256)
      = [43, 105, 112, 42, 136, 146, 72, 164, 214, 98, 4, 117, 161, 5, 220, 205, 94, 13, 66,
        48, 172, 168, 164, 146, 170, 246, 81, 14, 85, 213, 91, 2]"
    by (simp add: blake2b_primitives_def bytes_at_def blake2b_32_zero)
  have h: "length (hash2 zero_registers_memory) = 64"
    by (simp add: zero_registers_memory_def)
  from register_digest_widths [OF l, of 0 1 256 "replicate 256 0" zero_registers_memory] l z h
  show ?thesis
    by simp
qed

text \<open>
  The register file of 256 zero bytes: the digest of width 32 differs from the first 32
  bytes of the digest of width 64, already in the first byte (43 and 236).
\<close>

theorem narrow_digest_is_no_prefix:
  "fold_registers blake2b_primitives 256 32 (replicate 256 0) 0
     \<noteq> take 32 (fold_registers blake2b_primitives 256 64 (replicate 256 0) 0)"
  by (simp add: fold_registers_def blake2b_primitives_def bytes_at_def blake2b_32_zero
      blake2b_64_zero)

end
